theory Spec2Isabelle
  imports Complex_Main "HOL-Library.Log_Nat"
begin

section \<open>Outcomes of member functions\<close>

text \<open>
  \<open>Directed_Graph.hpp\<close> throws one exception class, \<open>DigraphException\<close>, with five
  messages. They are the four error kinds of the specification:
  "Vertex does not exist!" and "Vertice(s) do not exist!" are \<open>VertexNotFound\<close>,
  "Vertex already exists!" is \<open>VertexAlreadyExists\<close>, "Edge does not exist!" is
  \<open>EdgeNotFound\<close> and "Edge already exists!" is \<open>EdgeAlreadyExists\<close>.
  \<open>OutOfRange\<close> is \<open>std::out_of_range\<close>, thrown by \<open>std::vector::at\<close> and
  \<open>std::map::at\<close>; it is not a \<open>DigraphException\<close>.
\<close>

datatype error =
  VertexNotFound | VertexAlreadyExists | EdgeNotFound | EdgeAlreadyExists | OutOfRange

text \<open>
  A const member function returns a value, throws, or runs into behaviour the C++
  standard leaves undefined (incrementing a past-the-end iterator, converting a
  \<open>double\<close> outside the range of \<open>int\<close>).
\<close>

datatype 'a outcome = Returns 'a | Throws error | Undefined

text \<open>
  A mutating member function leaves a graph behind, also when it throws: \<open>Failed e g\<close>
  carries the state of the object at the \<open>throw\<close>.
\<close>

datatype 's mutation = Mutated 's | Failed error 's | UndefinedM

section \<open>Data model\<close>

record 'e DigraphEdge =
  fromVertex :: int
  toVertex :: int
  einfo :: 'e

record ('v, 'e) DigraphVertex =
  vinfo :: 'v
  edges :: "'e DigraphEdge list"

text \<open>
  The only data member is \<open>std::map<int, DigraphVertex<VertexInfo, EdgeInfo>> graph\<close>.
  A \<open>std::map\<close> is iterated in ascending key order and holds each key once: it is
  modelled as an association list whose keys are strictly ascending (\<open>map_inv\<close>).
  Vertex numbers are C++ \<open>int\<close>s; no arithmetic is done on them, so they are \<open>int\<close>.
\<close>

type_synonym ('v, 'e) Digraph = "(int \<times> ('v, 'e) DigraphVertex) list"

definition map_inv :: "(int \<times> 'a) list \<Rightarrow> bool" where
  "map_inv m = sorted_wrt (<) (map fst m)"

definition map_count :: "(int \<times> 'a) list \<Rightarrow> int \<Rightarrow> nat" where
  "map_count m k = length (filter (\<lambda>i. fst i = k) m)"

fun map_insert :: "int \<Rightarrow> 'a \<Rightarrow> (int \<times> 'a) list \<Rightarrow> (int \<times> 'a) list" where
  "map_insert k v [] = [(k, v)]"
| "map_insert k v (i # m) =
     (if k < fst i then (k, v) # i # m
      else if k = fst i then i # m
      else i # map_insert k v m)"

definition map_erase :: "int \<Rightarrow> (int \<times> 'a) list \<Rightarrow> (int \<times> 'a) list" where
  "map_erase k m = filter (\<lambda>i. fst i \<noteq> k) m"

section \<open>Queries\<close>

definition vertices :: "('v, 'e) Digraph \<Rightarrow> int list" where
  "vertices g = map fst g"

definition edge_pairs :: "'e DigraphEdge list \<Rightarrow> (int \<times> int) list" where
  "edge_pairs es = map (\<lambda>j. (fromVertex j, toVertex j)) es"

text \<open>\<open>edges()\<close>\<close>

definition edgesAll :: "('v, 'e) Digraph \<Rightarrow> (int \<times> int) list" where
  "edgesAll g = concat (map (\<lambda>i. edge_pairs (edges (snd i))) g)"

text \<open>\<open>edges(int vertex)\<close>\<close>

definition edgesOf :: "('v, 'e) Digraph \<Rightarrow> int \<Rightarrow> (int \<times> int) list outcome" where
  "edgesOf g vertex =
     (if map_count g vertex = 0 then Throws VertexNotFound
      else Returns (concat (map (\<lambda>i. if fst i = vertex then edge_pairs (edges (snd i)) else []) g)))"

definition vertexInfo :: "('v, 'e) Digraph \<Rightarrow> int \<Rightarrow> 'v outcome" where
  "vertexInfo g vertex =
     (if map_count g vertex = 0 then Throws VertexNotFound
      else case map_of g vertex of None \<Rightarrow> Throws OutOfRange | Some d \<Rightarrow> Returns (vinfo d))"

fun edgeInfo_loop :: "int \<Rightarrow> int \<Rightarrow> ('v, 'e) Digraph \<Rightarrow> 'e outcome" where
  "edgeInfo_loop f t [] = Throws EdgeNotFound"
| "edgeInfo_loop f t (i # g) =
     (if fst i = f then
        (case find (\<lambda>j. toVertex j = t) (edges (snd i)) of
           Some j \<Rightarrow> Returns (einfo j)
         | None \<Rightarrow> edgeInfo_loop f t g)
      else edgeInfo_loop f t g)"

definition edgeInfo :: "('v, 'e) Digraph \<Rightarrow> int \<Rightarrow> int \<Rightarrow> 'e outcome" where
  "edgeInfo g f t =
     (if map_count g f = 0 \<or> map_count g t = 0 then Throws VertexNotFound
      else edgeInfo_loop f t g)"

definition vertexCount :: "('v, 'e) Digraph \<Rightarrow> int" where
  "vertexCount g = int (length g)"

text \<open>\<open>edgeCount()\<close>\<close>

definition edgeCount :: "('v, 'e) Digraph \<Rightarrow> int" where
  "edgeCount g = int (sum_list (map (\<lambda>i. length (edges (snd i))) g))"

text \<open>\<open>edgeCount(int vertex)\<close>\<close>

definition edgeCountOf :: "('v, 'e) Digraph \<Rightarrow> int \<Rightarrow> int outcome" where
  "edgeCountOf g vertex =
     (if map_count g vertex = 0 then Throws VertexNotFound
      else Returns (int (sum_list (map (\<lambda>i. if fst i = vertex then length (edges (snd i)) else 0) g))))"

section \<open>Mutators\<close>

definition addVertex :: "('v, 'e) Digraph \<Rightarrow> int \<Rightarrow> 'v \<Rightarrow> ('v, 'e) Digraph mutation" where
  "addVertex g vertex vi =
     (let current_vertex = \<lparr>vinfo = vi, edges = []\<rparr>
      in if list_ex (\<lambda>i. fst i = vertex) g then Failed VertexAlreadyExists g
         else Mutated (map_insert vertex current_vertex g))"

text \<open>
  The loop of \<open>addEdge\<close> over the map: \<open>seen\<close> holds the entries already passed (with
  what the loop did to them), the list argument the entries still to come.
\<close>

fun addEdge_loop ::
  "int \<Rightarrow> int \<Rightarrow> 'e \<Rightarrow> ('v, 'e) Digraph \<Rightarrow> ('v, 'e) Digraph \<Rightarrow> ('v, 'e) Digraph mutation" where
  "addEdge_loop f t ei seen [] = Mutated seen"
| "addEdge_loop f t ei seen (i # rest) =
     (if fst i = f then
        (if list_ex (\<lambda>j. toVertex j = t) (edges (snd i))
         then Failed EdgeAlreadyExists (seen @ i # rest)
         else addEdge_loop f t ei
                (seen @ [(fst i, (snd i)\<lparr>edges := edges (snd i) @
                     [\<lparr>fromVertex = f, toVertex = t, einfo = ei\<rparr>]\<rparr>)]) rest)
      else addEdge_loop f t ei (seen @ [i]) rest)"

definition addEdge ::
  "('v, 'e) Digraph \<Rightarrow> int \<Rightarrow> int \<Rightarrow> 'e \<Rightarrow> ('v, 'e) Digraph mutation" where
  "addEdge g f t ei =
     (if map_count g f = 0 \<or> map_count g t = 0 then Failed VertexNotFound g
      else addEdge_loop f t ei [] g)"

text \<open>
  The erasing loops of \<open>removeVertex\<close> and \<open>removeEdge\<close> are
  \<^verbatim>\<open>for (j = begin; j != end; ++j) if (j->toVertex == v) { j = erase(j); ... }\<close>.
  After \<open>erase\<close>, \<open>j\<close> is at the element behind the erased one and the loop's \<open>++j\<close>
  steps over it unexamined. When the erased edge was the last of the list, \<open>j\<close> is
  \<open>end()\<close> and the loop increments the past-the-end iterator. The C++ standard leaves
  that undefined (\<open>Unspecified\<close>: the run has no outcome). The lists of libstdc++ and
  libc++ are circular through a sentinel node, and there the increment moves to the
  first element of the list (\<open>Circular\<close>): the loop walks the list once more.
\<close>

datatype past_end = Unspecified | Circular

text \<open>
  \<open>passed\<close> are the elements before \<open>j\<close>, the last argument the elements from \<open>j\<close> on;
  \<open>edgeExists\<close> is the flag of \<open>removeEdge\<close>, set when an edge is erased.
\<close>

function erase_loop ::
  "past_end \<Rightarrow> int \<Rightarrow> bool \<Rightarrow> 'e DigraphEdge list \<Rightarrow> 'e DigraphEdge list
     \<Rightarrow> ('e DigraphEdge list \<times> bool) option" where
  "erase_loop pe v edgeExists passed [] = Some (passed, edgeExists)"
| "erase_loop pe v edgeExists passed [j] =
     (if toVertex j = v then
        (case pe of
           Unspecified \<Rightarrow> None
         | Circular \<Rightarrow> erase_loop pe v True [] passed)
      else erase_loop pe v edgeExists (passed @ [j]) [])"
| "erase_loop pe v edgeExists passed (j # j' # js) =
     (if toVertex j = v then erase_loop pe v True (passed @ [j']) js
      else erase_loop pe v edgeExists (passed @ [j]) (j' # js))"
  by pat_completeness auto
termination
  by (relation "measures [\<lambda>(pe, v, b, passed, rest). length passed + length rest,
                          \<lambda>(pe, v, b, passed, rest). length rest]") auto

fun removeVertex_loop :: "past_end \<Rightarrow> int \<Rightarrow> ('v, 'e) Digraph \<Rightarrow> ('v, 'e) Digraph option" where
  "removeVertex_loop pe vertex [] = Some []"
| "removeVertex_loop pe vertex (i # rest) =
     (let es = (if fst i = vertex then [] else edges (snd i))
      in case erase_loop pe vertex False [] es of
           None \<Rightarrow> None
         | Some (es', b) \<Rightarrow>
             map_option ((#) (fst i, (snd i)\<lparr>edges := es'\<rparr>)) (removeVertex_loop pe vertex rest))"

definition removeVertex ::
  "past_end \<Rightarrow> ('v, 'e) Digraph \<Rightarrow> int \<Rightarrow> ('v, 'e) Digraph mutation" where
  "removeVertex pe g vertex =
     (if map_count g vertex = 0 then Failed VertexNotFound g
      else case removeVertex_loop pe vertex g of
             None \<Rightarrow> UndefinedM
           | Some g' \<Rightarrow> Mutated (map_erase vertex g'))"

text \<open>The loop of \<open>removeEdge\<close>: the graph after it, and \<open>edgeExists\<close>.\<close>

fun removeEdge_loop ::
  "past_end \<Rightarrow> int \<Rightarrow> int \<Rightarrow> bool \<Rightarrow> ('v, 'e) Digraph \<Rightarrow> (('v, 'e) Digraph \<times> bool) option" where
  "removeEdge_loop pe f t edgeExists [] = Some ([], edgeExists)"
| "removeEdge_loop pe f t edgeExists (i # rest) =
     (if fst i = f then
        (case erase_loop pe t edgeExists [] (edges (snd i)) of
           None \<Rightarrow> None
         | Some (es', b) \<Rightarrow>
             map_option (\<lambda>(r, x). ((fst i, (snd i)\<lparr>edges := es'\<rparr>) # r, x))
               (removeEdge_loop pe f t b rest))
      else map_option (\<lambda>(r, x). (i # r, x)) (removeEdge_loop pe f t edgeExists rest))"

definition removeEdge ::
  "past_end \<Rightarrow> ('v, 'e) Digraph \<Rightarrow> int \<Rightarrow> int \<Rightarrow> ('v, 'e) Digraph mutation" where
  "removeEdge pe g f t =
     (if map_count g f = 0 \<or> map_count g t = 0 then Failed VertexNotFound g
      else case removeEdge_loop pe f t False g of
             None \<Rightarrow> UndefinedM
           | Some (g', edgeExists) \<Rightarrow>
               if edgeExists = False then Failed EdgeNotFound g' else Mutated g')"

section \<open>Shortest paths\<close>

text \<open>
  \<open>std::vector::at\<close> with an \<open>int\<close> argument: the index is converted to \<open>size_t\<close>, so a
  negative one is far beyond any size and throws like one that is too large.
\<close>

definition vector_at :: "'a list \<Rightarrow> int \<Rightarrow> 'a outcome" where
  "vector_at xs i = (if 0 \<le> i \<and> i < int (length xs) then Returns (xs ! nat i) else Throws OutOfRange)"

text \<open>
  Edge weights are \<open>double\<close>s (IEEE binary64): a finite \<open>double\<close> is a rational
  \<open>m * 2 powi e\<close> with \<open>\<bar>m\<bar> < 2 ^ 53\<close> and \<open>- 1074 \<le> e\<close>, and the model takes
  the weight function to return the rational value of the \<open>double\<close>. The sum
  \<open>dv.at(vertex) + edgeWeightFunc(j->einfo)\<close> converts the \<open>int\<close> to \<open>double\<close>
  (exactly, an \<open>int\<close> has 32 bits) and adds two \<open>double\<close>s: the exact sum is rounded to
  the nearest \<open>double\<close>, a tie to the one with the even significand.

  \<open>binary_exponent x\<close> is the \<open>e\<close> with \<open>2 powi e \<le> x < 2 powi (e + 1)\<close> for
  positive \<open>x\<close>, found from the bit lengths of numerator and denominator. The
  \<open>double\<close>s in that binade are the multiples of \<open>2 powi (e - 52)\<close>; below
  \<open>2 powi (- 1022)\<close> (subnormal numbers) they are the multiples of \<open>2 powi (- 1074)\<close>.
  The sum of an \<open>int\<close> and a finite \<open>double\<close> never rounds to an infinity, so the
  model has none.
\<close>

definition binary_exponent :: "rat \<Rightarrow> int" where
  "binary_exponent x =
     (let k = bitlen (fst (quotient_of x)) - bitlen (snd (quotient_of x))
      in if 2 powi k \<le> x then k else k - 1)"

definition round_even :: "rat \<Rightarrow> int" where
  "round_even q =
     (let f = \<lfloor>q\<rfloor>; r = q - of_int f
      in if r < 1 / 2 then f
         else if 1 / 2 < r then f + 1
         else if even f then f else f + 1)"

definition round_double :: "rat \<Rightarrow> rat" where
  "round_double x =
     (if x = 0 then 0
      else let u = 2 powi (max (binary_exponent \<bar>x\<bar>) (- 1022) - 52)
           in sgn x * of_int (round_even (\<bar>x\<bar> / u)) * u)"

definition double_add :: "rat \<Rightarrow> rat \<Rightarrow> rat" where
  "double_add a b = round_double (a + b)"

text \<open>
  \<open>dv\<close> is a \<open>std::vector<int>\<close>: storing the \<open>double\<close> sum truncates it toward zero,
  and the conversion is undefined when the truncated value is no \<open>int\<close>. The comparison
  \<open>dv.at(j->toVertex) > dv.at(vertex) + edgeWeightFunc(j->einfo)\<close> is between the
  \<open>int\<close>, converted to \<open>double\<close>, and the rounded sum.
\<close>

definition double_to_int :: "rat \<Rightarrow> int" where
  "double_to_int x = (if 0 \<le> x then \<lfloor>x\<rfloor> else \<lceil>x\<rceil>)"

definition int_range :: "int \<Rightarrow> bool" where
  "int_range t = (- 2147483648 \<le> t \<and> t \<le> 2147483647)"

text \<open>
  The local variables of \<open>findShortestPaths\<close>. An entry of \<open>pq\<close> is a
  \<open>std::pair<int, double>\<close>: \<open>pq.push(std::make_pair(dv.at(j->toVertex), j->toVertex))\<close>
  puts the distance into \<open>first\<close> and the vertex number into \<open>second\<close> (a \<open>double\<close>
  holding an \<open>int\<close> exactly).
\<close>

record sp_state =
  kv :: "bool list"
  dv :: "int list"
  pv :: "(int \<times> int) list"
  pq :: "(int \<times> int) list"

definition pv_set :: "(int \<times> int) list \<Rightarrow> int \<Rightarrow> int \<Rightarrow> (int \<times> int) list" where
  "pv_set m k v = map (\<lambda>i. if fst i = k then (fst i, v) else i) m"

text \<open>
  The comparison of the queue is \<open>left.second > right.second\<close>, so \<open>pq.top()\<close> is an
  entry whose \<open>second\<close> is least; among entries with equal \<open>second\<close> the model takes
  the one pushed first (the loop reads \<open>pq.top().second\<close> only).
\<close>

definition pq_top :: "(int \<times> int) list \<Rightarrow> int \<times> int" where
  "pq_top q = arg_min_list snd q"

definition pq_pop :: "(int \<times> int) list \<Rightarrow> (int \<times> int) list" where
  "pq_pop q = remove1 (pq_top q) q"

fun relax :: "('e \<Rightarrow> rat) \<Rightarrow> int \<Rightarrow> 'e DigraphEdge list \<Rightarrow> sp_state \<Rightarrow> sp_state outcome" where
  "relax w vertex [] s = Returns s"
| "relax w vertex (j # js) s =
     (case vector_at (dv s) (toVertex j) of
        Throws e \<Rightarrow> Throws e
      | Undefined \<Rightarrow> Undefined
      | Returns dto \<Rightarrow>
          (case vector_at (dv s) vertex of
             Throws e \<Rightarrow> Throws e
           | Undefined \<Rightarrow> Undefined
           | Returns dfrom \<Rightarrow>
               if of_int dto > double_add (of_int dfrom) (w (einfo j)) then
                 (let t = double_to_int (double_add (of_int dfrom) (w (einfo j)))
                  in if \<not> int_range t then Undefined
                     else relax w vertex js
                            (s\<lparr>dv := (dv s)[nat (toVertex j) := t],
                               pv := pv_set (pv s) (toVertex j) vertex,
                               pq := pq s @ [(t, toVertex j)]\<rparr>))
               else relax w vertex js s))"

fun relax_vertex ::
  "('e \<Rightarrow> rat) \<Rightarrow> int \<Rightarrow> ('v, 'e) Digraph \<Rightarrow> sp_state \<Rightarrow> sp_state outcome" where
  "relax_vertex w vertex [] s = Returns s"
| "relax_vertex w vertex (i # rest) s =
     (if fst i = vertex then
        (case relax w vertex (edges (snd i)) s of
           Returns s' \<Rightarrow> relax_vertex w vertex rest s'
         | Throws e \<Rightarrow> Throws e
         | Undefined \<Rightarrow> Undefined)
      else relax_vertex w vertex rest s)"

definition loopBody :: "('v, 'e) Digraph \<Rightarrow> ('e \<Rightarrow> rat) \<Rightarrow> sp_state \<Rightarrow> sp_state outcome" where
  "loopBody g w s =
     (let vertex = snd (pq_top (pq s));
          s1 = s\<lparr>pq := pq_pop (pq s)\<rparr>
      in case vector_at (kv s1) vertex of
           Throws e \<Rightarrow> Throws e
         | Undefined \<Rightarrow> Undefined
         | Returns known \<Rightarrow>
             if known = False
             then relax_vertex w vertex g (s1\<lparr>kv := (kv s1)[nat vertex := True]\<rparr>)
             else Returns s1)"

lemma relax_kv: "relax w vertex js s = Returns s' \<Longrightarrow> kv s' = kv s"
  by (induction js arbitrary: s) (auto split: outcome.splits if_splits simp: Let_def)

lemma relax_pq_len: "relax w vertex js s = Returns s' \<Longrightarrow> length (pq s) \<le> length (pq s')"
  by (induction js arbitrary: s) (fastforce split: outcome.splits if_splits simp: Let_def)+

lemma relax_vertex_kv: "relax_vertex w vertex g s = Returns s' \<Longrightarrow> kv s' = kv s"
  by (induction g arbitrary: s) (auto split: outcome.splits if_splits dest: relax_kv)

lemma pq_top_in: "q \<noteq> [] \<Longrightarrow> pq_top q \<in> set q"
  by (simp add: pq_top_def arg_min_list_in)

lemma pq_pop_length: "q \<noteq> [] \<Longrightarrow> length (pq_pop q) < length q"
  by (simp add: pq_pop_def length_remove1 pq_top_in)

definition unknown_count :: "sp_state \<Rightarrow> nat" where
  "unknown_count s = length (filter Not (kv s))"

lemma filter_Not_update:
  "n < length xs \<Longrightarrow> xs ! n = False \<Longrightarrow>
     length (filter Not (xs[n := True])) < length (filter Not xs)"
proof (induction xs arbitrary: n)
  case Nil
  then show ?case by simp
next
  case (Cons x xs)
  then show ?case by (cases n) auto
qed

lemma loopBody_decreases:
  assumes "pq s \<noteq> []" and "loopBody g w s = Returns s'"
  shows "unknown_count s' < unknown_count s
       \<or> (unknown_count s' = unknown_count s \<and> length (pq s') < length (pq s))"
  using assms
  by (auto simp: loopBody_def Let_def vector_at_def unknown_count_def pq_pop_length
           split: outcome.splits if_splits
           dest!: relax_vertex_kv intro!: filter_Not_update)

function mainLoop :: "('v, 'e) Digraph \<Rightarrow> ('e \<Rightarrow> rat) \<Rightarrow> sp_state \<Rightarrow> sp_state outcome" where
  "mainLoop g w s =
     (if pq s = [] then Returns s
      else case loopBody g w s of
             Returns s' \<Rightarrow> mainLoop g w s'
           | Throws e \<Rightarrow> Throws e
           | Undefined \<Rightarrow> Undefined)"
  by pat_completeness auto
termination
proof (relation "measures [\<lambda>(g, w, s). unknown_count s, \<lambda>(g, w, s). length (pq s)]")
  fix g :: "('v, 'e) Digraph" and w :: "'e \<Rightarrow> rat" and s x
  assume "pq s \<noteq> []" and "loopBody g w s = Returns x"
  from loopBody_decreases[OF this]
  show "((g, w, x), (g, w, s))
          \<in> measures [\<lambda>(g, w, s). unknown_count s, \<lambda>(g, w, s). length (pq s)]"
    by auto
qed simp

definition sp_init :: "('v, 'e) Digraph \<Rightarrow> int \<Rightarrow> sp_state" where
  "sp_init g startVertex =
     \<lparr>kv = replicate (nat (vertexCount g + 1)) False,
      dv = (replicate (nat (vertexCount g + 1)) 2147000000)[nat startVertex := 0],
      pv = pv_set (map (\<lambda>i. (fst i, - 1)) g) startVertex startVertex,
      pq = [(0, startVertex)]\<rparr>"

definition findShortestPaths ::
  "('v, 'e) Digraph \<Rightarrow> int \<Rightarrow> ('e \<Rightarrow> rat) \<Rightarrow> (int \<times> int) list outcome" where
  "findShortestPaths g startVertex edgeWeightFunc =
     (if map_count (map (\<lambda>i. (fst i, - 1 :: int)) g) startVertex = 0 then Throws OutOfRange
      else case vector_at (replicate (nat (vertexCount g + 1)) (2147000000 :: int)) startVertex of
             Throws e \<Rightarrow> Throws e
           | Undefined \<Rightarrow> Undefined
           | Returns d \<Rightarrow>
               (case mainLoop g edgeWeightFunc (sp_init g startVertex) of
                  Throws e \<Rightarrow> Throws e
                | Undefined \<Rightarrow> Undefined
                | Returns s \<Rightarrow>
                    Returns (map (\<lambda>i. if snd i = - 1 then (fst i, fst i) else i) (pv s))))"

declare mainLoop.simps [simp del]

section \<open>Strong connectivity\<close>

text \<open>
  \<open>void depthFirst(VertexInfo vertex, std::vector<int>& tracker) const\<close>: the first
  parameter is declared with the payload type \<open>VertexInfo\<close>, not \<open>int\<close>. Both call sites
  pass an \<open>int\<close> (\<open>i->first\<close>, \<open>k->toVertex\<close>), which is converted to \<open>VertexInfo\<close>, and
  the body compares \<open>int\<close>s with it (\<open>i->first == vertex\<close>, \<open>tracker.at(j) == vertex\<close>).
  What the conversion and the comparison do depends on the type the template is
  instantiated with, so they are parameters of the model: \<open>conv\<close> converts a vertex
  number to \<open>VertexInfo\<close>, \<open>eqv k v\<close> is \<open>k == v\<close> for an \<open>int\<close> \<open>k\<close> and a \<open>VertexInfo\<close> \<open>v\<close>.

  \<open>depthFirst_entries\<close> is the loop over the map (the flag \<open>strong_connected\<close> is a
  local of the function, declared before the loop, and the entries still to come),
  \<open>depthFirst_edges\<close> the loop over the edges of an entry with its recursive calls.
  \<open>tracker\<close> is passed by reference: each function returns it.
\<close>

function depthFirst ::
    "(int \<Rightarrow> 'v) \<Rightarrow> (int \<Rightarrow> 'v \<Rightarrow> bool) \<Rightarrow> ('v, 'e) Digraph \<Rightarrow> 'v \<Rightarrow> int list \<Rightarrow> int list"
  and depthFirst_entries ::
    "(int \<Rightarrow> 'v) \<Rightarrow> (int \<Rightarrow> 'v \<Rightarrow> bool) \<Rightarrow> ('v, 'e) Digraph \<Rightarrow> 'v \<Rightarrow> bool
       \<Rightarrow> ('v, 'e) Digraph \<Rightarrow> int list \<Rightarrow> int list"
  and depthFirst_edges ::
    "(int \<Rightarrow> 'v) \<Rightarrow> (int \<Rightarrow> 'v \<Rightarrow> bool) \<Rightarrow> ('v, 'e) Digraph \<Rightarrow> 'e DigraphEdge list
       \<Rightarrow> int list \<Rightarrow> int list"
where
  "depthFirst conv eqv g vertex tracker = depthFirst_entries conv eqv g vertex False g tracker"
| "depthFirst_entries conv eqv g vertex strong_connected [] tracker = tracker"
| "depthFirst_entries conv eqv g vertex strong_connected (i # rest) tracker =
     (if eqv (fst i) vertex then
        (if \<not> (strong_connected \<or> list_ex (\<lambda>t. eqv t vertex) tracker) then
           depthFirst_entries conv eqv g vertex False rest
             (depthFirst_edges conv eqv g (edges (snd i)) (tracker @ [fst i]))
         else depthFirst_entries conv eqv g vertex True rest tracker)
      else depthFirst_entries conv eqv g vertex strong_connected rest tracker)"
| "depthFirst_edges conv eqv g [] tracker = tracker"
| "depthFirst_edges conv eqv g (k # ks) tracker =
     depthFirst_edges conv eqv g ks (depthFirst conv eqv g (conv (toVertex k)) tracker)"
  by pat_completeness auto


text \<open>
  The recursion is nested (the tracker returned by one call is the argument of the
  next), so its termination needs that a call, where it terminates, only adds to the
  tracker. The measure: the number of keys not yet in the tracker, then the position in
  the loops.
\<close>

lemma depthFirst_grows_dom:
  "depthFirst_depthFirst_entries_depthFirst_edges_dom (Inl (conv, eqv, g, vertex, tracker)) \<Longrightarrow>
     set tracker \<subseteq> set (depthFirst conv eqv g vertex tracker)"
  "depthFirst_depthFirst_entries_depthFirst_edges_dom (Inr (Inl (conv, eqv, g, vertex, sc, rest, tracker))) \<Longrightarrow>
     set tracker \<subseteq> set (depthFirst_entries conv eqv g vertex sc rest tracker)"
  "depthFirst_depthFirst_entries_depthFirst_edges_dom (Inr (Inr (conv, eqv, g, ks, tracker))) \<Longrightarrow>
     set tracker \<subseteq> set (depthFirst_edges conv eqv g ks tracker)"
proof (induct rule: depthFirst_depthFirst_entries_depthFirst_edges.pinduct)
  case (1 conv eqv g vertex tracker)
  then show ?case by (simp add: depthFirst.psimps)
next
  case (2 conv eqv g vertex strong_connected tracker)
  then show ?case by (simp add: depthFirst_entries.psimps)
next
  case (3 conv eqv g vertex strong_connected i rest tracker)
  then show ?case by (auto simp: depthFirst_entries.psimps)
next
  case (4 conv eqv g tracker)
  then show ?case by (simp add: depthFirst_edges.psimps)
next
  case (5 conv eqv g k ks tracker)
  then show ?case by (auto simp: depthFirst_edges.psimps)
qed

definition depthFirst_measure ::
  "(int \<Rightarrow> 'v) \<times> (int \<Rightarrow> 'v \<Rightarrow> bool) \<times> ('v, 'e) Digraph \<times> 'v \<times> int list +
   (int \<Rightarrow> 'v) \<times> (int \<Rightarrow> 'v \<Rightarrow> bool) \<times> ('v, 'e) Digraph \<times> 'v \<times> bool \<times> ('v, 'e) Digraph \<times> int list +
   (int \<Rightarrow> 'v) \<times> (int \<Rightarrow> 'v \<Rightarrow> bool) \<times> ('v, 'e) Digraph \<times> 'e DigraphEdge list \<times> int list
   \<Rightarrow> nat \<times> nat" where
  "depthFirst_measure x =
     (case x of
        Inl (conv, eqv, g, vertex, tracker) \<Rightarrow>
          (card (fst ` set g - set tracker), length g + 1)
      | Inr (Inl (conv, eqv, g, vertex, sc, rest, tracker)) \<Rightarrow>
          (card ((fst ` set g \<union> fst ` set rest) - set tracker), length rest)
      | Inr (Inr (conv, eqv, g, ks, tracker)) \<Rightarrow>
          (card (fst ` set g - set tracker), length g + 2 + length ks))"

lemma lex_card_le:
  "finite B \<Longrightarrow> A \<subseteq> B \<Longrightarrow> m < n \<Longrightarrow>
     ((card A, m), (card B, n :: nat)) \<in> less_than <*lex*> less_than"
  using card_mono[of B A] by auto

lemma lex_card_less:
  "finite B \<Longrightarrow> A \<subset> B \<Longrightarrow> ((card A, m), (card B, n :: nat)) \<in> less_than <*lex*> less_than"
  using psubset_card_mono[of B A] by auto

lemma depthFirst_all_dom: "All depthFirst_depthFirst_entries_depthFirst_edges_dom"
proof (rule "depthFirst_depthFirst_entries_depthFirst_edges.termination"
         [where R = "inv_image (less_than <*lex*> less_than) depthFirst_measure"], goal_cases)
  case 1
  show ?case by (intro wf_inv_image wf_lex_prod wf_less_than)
next
  case (2 conv eqv g vertex tracker)
  show ?case by (simp add: depthFirst_measure_def)
next
  case (3 conv eqv g vertex strong_connected i rest tracker)
  from 3 have "fst i \<notin> set tracker" by (auto simp: list_ex_iff)
  then have "fst ` set g - set (tracker @ [fst i])
               \<subset> (fst ` set g \<union> fst ` set (i # rest)) - set tracker"
    by auto
  then show ?case
    unfolding in_inv_image depthFirst_measure_def sum.case prod.case
    by (intro lex_card_less) simp_all
next
  case (4 conv eqv g vertex strong_connected i rest tracker)
  from depthFirst_grows_dom(3)[OF 4(3)]
  have "(fst ` set g \<union> fst ` set rest)
           - set (depthFirst_edges conv eqv g (edges (snd i)) (tracker @ [fst i]))
          \<subseteq> (fst ` set g \<union> fst ` set (i # rest)) - set tracker"
    by auto
  then show ?case
    unfolding in_inv_image depthFirst_measure_def sum.case prod.case
    by (intro lex_card_le) simp_all
next
  case (5 conv eqv g vertex strong_connected i rest tracker)
  have "(fst ` set g \<union> fst ` set rest) - set tracker
          \<subseteq> (fst ` set g \<union> fst ` set (i # rest)) - set tracker"
    by auto
  then show ?case
    unfolding in_inv_image depthFirst_measure_def sum.case prod.case
    by (intro lex_card_le) simp_all
next
  case (6 conv eqv g vertex strong_connected i rest tracker)
  have "(fst ` set g \<union> fst ` set rest) - set tracker
          \<subseteq> (fst ` set g \<union> fst ` set (i # rest)) - set tracker"
    by auto
  then show ?case
    unfolding in_inv_image depthFirst_measure_def sum.case prod.case
    by (intro lex_card_le) simp_all
next
  case (7 conv eqv g k ks tracker)
  show ?case by (simp add: depthFirst_measure_def)
next
  case (8 conv eqv g k ks tracker)
  from depthFirst_grows_dom(1)[OF 8]
  have "fst ` set g - set (depthFirst conv eqv g (conv (toVertex k)) tracker)
          \<subseteq> fst ` set g - set tracker"
    by auto
  then show ?case
    unfolding in_inv_image depthFirst_measure_def sum.case prod.case
    by (intro lex_card_le) simp_all
qed

termination depthFirst
  by (rule depthFirst_all_dom)

fun isStronglyConnected_loop ::
  "(int \<Rightarrow> 'v) \<Rightarrow> (int \<Rightarrow> 'v \<Rightarrow> bool) \<Rightarrow> ('v, 'e) Digraph \<Rightarrow> ('v, 'e) Digraph \<Rightarrow> bool" where
  "isStronglyConnected_loop conv eqv g [] = True"
| "isStronglyConnected_loop conv eqv g (i # rest) =
     (if vertexCount g \<noteq> int (length (depthFirst conv eqv g (conv (fst i)) []))
      then False
      else isStronglyConnected_loop conv eqv g rest)"

definition isStronglyConnected ::
  "(int \<Rightarrow> 'v) \<Rightarrow> (int \<Rightarrow> 'v \<Rightarrow> bool) \<Rightarrow> ('v, 'e) Digraph \<Rightarrow> bool" where
  "isStronglyConnected conv eqv g = isStronglyConnected_loop conv eqv g g"

section \<open>Paths and their weights\<close>

fun path_weight :: "('v, 'e) Digraph \<Rightarrow> ('e \<Rightarrow> rat) \<Rightarrow> int list \<Rightarrow> rat option" where
  "path_weight g w [] = Some 0"
| "path_weight g w [a] = Some 0"
| "path_weight g w (a # b # p) =
     (case edgeInfo g a b of
        Returns e \<Rightarrow> map_option ((+) (w e)) (path_weight g w (b # p))
      | Throws x \<Rightarrow> None
      | Undefined \<Rightarrow> None)"

section \<open>Example graphs\<close>

definition mk_vertex :: "int \<Rightarrow> (int \<times> int) list \<Rightarrow> int \<times> (unit, int) DigraphVertex" where
  "mk_vertex k es =
     (k, \<lparr>vinfo = (), edges = map (\<lambda>(t, c). \<lparr>fromVertex = k, toVertex = t, einfo = c\<rparr>) es\<rparr>)"

text \<open>
  Vertices 1 to 4; the edge payload is the weight:
  1\<rightarrow>2 (10), 1\<rightarrow>3 (1), 2\<rightarrow>4 (1), 3\<rightarrow>2 (1), 3\<rightarrow>4 (5).
\<close>

definition detour_graph :: "(unit, int) Digraph" where
  "detour_graph =
     [mk_vertex 1 [(2, 10), (3, 1)], mk_vertex 2 [(4, 1)], mk_vertex 3 [(2, 1), (4, 5)],
      mk_vertex 4 []]"

text \<open>
  Vertices 0, 1, 2 with fractional weights as payloads:
  0\<rightarrow>2 (3/2), 0\<rightarrow>1 (3/4), 1\<rightarrow>2 (7/8).
\<close>

definition fraction_graph :: "(unit, rat) Digraph" where
  "fraction_graph =
     [(0, \<lparr>vinfo = (), edges = [\<lparr>fromVertex = 0, toVertex = 2, einfo = 3 / 2\<rparr>,
                                \<lparr>fromVertex = 0, toVertex = 1, einfo = 3 / 4\<rparr>]\<rparr>),
      (1, \<lparr>vinfo = (), edges = [\<lparr>fromVertex = 1, toVertex = 2, einfo = 7 / 8\<rparr>]\<rparr>),
      (2, \<lparr>vinfo = (), edges = []\<rparr>)]"

section \<open>Invariants of the graph\<close>

definition invariants :: "('v, 'e) Digraph \<Rightarrow> bool" where
  "invariants g =
     list_all (\<lambda>i. list_all (\<lambda>j. fromVertex j = fst i \<and> toVertex j \<in> set (vertices g))
                         (edges (snd i))
                 \<and> distinct (map toVertex (edges (snd i)))) g"

definition state_after :: "'s mutation \<Rightarrow> 's option" where
  "state_after m = (case m of Mutated s \<Rightarrow> Some s | Failed e s \<Rightarrow> Some s | UndefinedM \<Rightarrow> None)"

definition push_edge ::
  "int \<Rightarrow> int \<Rightarrow> 'e \<Rightarrow> int \<times> ('v, 'e) DigraphVertex \<Rightarrow> int \<times> ('v, 'e) DigraphVertex" where
  "push_edge f t ei i =
     (fst i, (snd i)\<lparr>edges := edges (snd i) @ [\<lparr>fromVertex = f, toVertex = t, einfo = ei\<rparr>]\<rparr>)"

definition drop_edges_to :: "int \<Rightarrow> int \<times> ('v, 'e) DigraphVertex \<Rightarrow> int \<times> ('v, 'e) DigraphVertex" where
  "drop_edges_to v i = (fst i, (snd i)\<lparr>edges := filter (\<lambda>j. toVertex j \<noteq> v) (edges (snd i))\<rparr>)"

text \<open>Vertices 1, 2, 3 with the edges 1\<rightarrow>2 and 1\<rightarrow>3.\<close>

definition star_graph :: "(unit, int) Digraph" where
  "star_graph = [mk_vertex 1 [(2, 0), (3, 0)], mk_vertex 2 [], mk_vertex 3 []]"

section \<open>Move construction and move assignment\<close>

text \<open>
  Both are \<open>std::swap(graph, d.graph)\<close>; the move assignment guards it with
  \<open>this != &d\<close>. The objects live in a store indexed by their addresses, so that the
  two operands may be one object. The object under construction starts with an empty
  map.
\<close>

type_synonym ('v, 'e) store = "nat \<Rightarrow> ('v, 'e) Digraph"

definition swap_graph :: "('v, 'e) store \<Rightarrow> nat \<Rightarrow> nat \<Rightarrow> ('v, 'e) store" where
  "swap_graph h a b = h(a := h b, b := h a)"

definition move_construct :: "('v, 'e) store \<Rightarrow> nat \<Rightarrow> nat \<Rightarrow> ('v, 'e) store" where
  "move_construct h this d = swap_graph (h(this := [])) this d"

definition move_assign :: "('v, 'e) store \<Rightarrow> nat \<Rightarrow> nat \<Rightarrow> ('v, 'e) store" where
  "move_assign h this d = (if this \<noteq> d then swap_graph h this d else h)"

text \<open>Destination \<open>star_graph\<close> at address 0, source \<open>detour_graph\<close> at address 1.\<close>

definition two_graphs :: "(unit, int) store" where
  "two_graphs = (\<lambda>a. [])(0 := star_graph, Suc 0 := detour_graph)"

section \<open>Reachability\<close>

text \<open>
  \<open>edge_rel\<close> is the relation the traversals follow: from the key of a map entry to the
  \<open>toVertex\<close> of an edge in that entry's list. \<open>reachable g u v\<close>: there is a path of
  zero or more such edges from \<open>u\<close> to \<open>v\<close>.
\<close>

definition edge_rel :: "('v, 'e) Digraph \<Rightarrow> (int \<times> int) set" where
  "edge_rel g = {(a, b). \<exists>i \<in> set g. fst i = a \<and> b \<in> toVertex ` set (edges (snd i))}"

definition reachable :: "('v, 'e) Digraph \<Rightarrow> int \<Rightarrow> int \<Rightarrow> bool" where
  "reachable g u v = ((u, v) \<in> (edge_rel g)\<^sup>*)"

definition nonneg_weights :: "('v, 'e) Digraph \<Rightarrow> ('e \<Rightarrow> rat) \<Rightarrow> bool" where
  "nonneg_weights g w = list_all (\<lambda>i. list_all (\<lambda>j. 0 \<le> w (einfo j)) (edges (snd i))) g"

text \<open>
  What holds of the local variables of \<open>findShortestPaths\<close> at every iteration, for
  every weight function: \<open>pv\<close> keeps the graph's keys, and only vertices reachable
  from the start vertex get a predecessor or enter the queue.
\<close>

definition sp_reach :: "('v, 'e) Digraph \<Rightarrow> int \<Rightarrow> sp_state \<Rightarrow> bool" where
  "sp_reach g start s =
     (map fst (pv s) = map fst g
      \<and> (\<forall>e \<in> set (pv s). snd e \<noteq> - 1 \<longrightarrow> reachable g start (fst e))
      \<and> (\<forall>e \<in> set (pq s). reachable g start (snd e)))"

text \<open>
  What holds in addition when the weights are non-negative: no stored distance is
  negative, the start vertex keeps the distance 0 and itself as predecessor.
\<close>

definition sp_dist :: "int \<Rightarrow> sp_state \<Rightarrow> bool" where
  "sp_dist start s =
     ((\<forall>e \<in> set (pv s). fst e = start \<longrightarrow> snd e = start)
      \<and> (\<forall>x \<in> set (dv s). 0 \<le> x)
      \<and> 0 \<le> start \<and> nat start < length (dv s) \<and> dv s ! nat start = 0)"

text \<open>Vertices 0 and 1 with the edges 0\<rightarrow>1 and 1\<rightarrow>0; the payloads are the weights.\<close>

definition negative_cycle :: "(unit, int) Digraph" where
  "negative_cycle = [mk_vertex 0 [(1, - 5)], mk_vertex 1 [(0, - 5)]]"

text \<open>Vertices 0 and 7 with the edge 0\<rightarrow>7 of weight 1.\<close>

definition gap_graph :: "(unit, int) Digraph" where
  "gap_graph = [mk_vertex 0 [(7, 1)], mk_vertex 7 []]"

text \<open>
  Vertices 0, 1, 2; the payloads are the weights:
  0\<rightarrow>1 (1), 0\<rightarrow>2 (2), 1\<rightarrow>2 (1 - 2 powi (- 53)). The exact weight of 0\<rightarrow>1\<rightarrow>2 is less
  than 2, the sum in \<open>double\<close> arithmetic is 2.
\<close>

definition rounding_graph :: "(unit, rat) Digraph" where
  "rounding_graph =
     [(0, \<lparr>vinfo = (), edges = [\<lparr>fromVertex = 0, toVertex = 1, einfo = 1\<rparr>,
                                \<lparr>fromVertex = 0, toVertex = 2, einfo = 2\<rparr>]\<rparr>),
      (1, \<lparr>vinfo = (), edges = [\<lparr>fromVertex = 1, toVertex = 2, einfo = 1 - 1 / 2 ^ 53\<rparr>]\<rparr>),
      (2, \<lparr>vinfo = (), edges = []\<rparr>)]"

section \<open>Instantiations of VertexInfo\<close>

text \<open>
  \<open>VertexInfo = int\<close>: the conversion is the identity and the comparison is equality.
\<close>

definition int_to_int :: "int \<Rightarrow> int" where
  "int_to_int k = k"

definition int_eq_int :: "int \<Rightarrow> int \<Rightarrow> bool" where
  "int_eq_int k v = (k = v)"

text \<open>
  \<open>VertexInfo = bool\<close>: an \<open>int\<close> converts to \<open>true\<close> unless it is zero; in
  \<open>k == v\<close> the \<open>bool\<close> is promoted to the \<open>int\<close> 1 or 0.
\<close>

definition int_to_bool :: "int \<Rightarrow> bool" where
  "int_to_bool k = (k \<noteq> 0)"

definition int_eq_bool :: "int \<Rightarrow> bool \<Rightarrow> bool" where
  "int_eq_bool k v = (k = (if v then 1 else 0))"

text \<open>A \<open>Digraph<bool, ...>\<close> with the vertices 0 and 2 and the edges 0\<rightarrow>2 and 2\<rightarrow>0.\<close>

definition flagged_pair :: "(bool, unit) Digraph" where
  "flagged_pair =
     [(0, \<lparr>vinfo = False, edges = [\<lparr>fromVertex = 0, toVertex = 2, einfo = ()\<rparr>]\<rparr>),
      (2, \<lparr>vinfo = True, edges = [\<lparr>fromVertex = 2, toVertex = 0, einfo = ()\<rparr>]\<rparr>)]"

text \<open>A \<open>Digraph<int, ...>\<close> with the cycle 1\<rightarrow>2\<rightarrow>3\<rightarrow>1.\<close>

definition three_cycle :: "(int, unit) Digraph" where
  "three_cycle =
     [(1, \<lparr>vinfo = 10, edges = [\<lparr>fromVertex = 1, toVertex = 2, einfo = ()\<rparr>]\<rparr>),
      (2, \<lparr>vinfo = 20, edges = [\<lparr>fromVertex = 2, toVertex = 3, einfo = ()\<rparr>]\<rparr>),
      (3, \<lparr>vinfo = 30, edges = [\<lparr>fromVertex = 3, toVertex = 1, einfo = ()\<rparr>]\<rparr>)]"

text \<open>A \<open>Digraph<bool, ...>\<close> with the single vertex 2 and no edge.\<close>

definition lone_flagged :: "(bool, unit) Digraph" where
  "lone_flagged = [(2, \<lparr>vinfo = True, edges = []\<rparr>)]"

text \<open>
  The conversion loses nothing: an \<open>int\<close> compares equal to a converted vertex number
  exactly when it is that number (\<open>VertexInfo = int\<close>, for one).
\<close>

definition exact_conversion :: "(int \<Rightarrow> 'v) \<Rightarrow> (int \<Rightarrow> 'v \<Rightarrow> bool) \<Rightarrow> bool" where
  "exact_conversion conv eqv = (\<forall>k k'. eqv k (conv k') = (k = k'))"

text \<open>
  What a traversal that turns the tracker \<open>T\<close> into \<open>T'\<close> from the start vertices \<open>S\<close>
  has done right: it kept what was recorded, recorded only vertices reachable from a
  start vertex, and every edge out of a newly recorded vertex ends at a recorded one.
\<close>

definition dfs_ok :: "('v, 'e) Digraph \<Rightarrow> int set \<Rightarrow> int list \<Rightarrow> int list \<Rightarrow> bool" where
  "dfs_ok g S T T' =
     (set T \<subseteq> set T'
      \<and> set T' \<subseteq> set T \<union> {x. \<exists>s \<in> S. reachable g s x}
      \<and> (\<forall>x \<in> set T' - set T. \<forall>y. (x, y) \<in> edge_rel g \<longrightarrow> y \<in> set T'))"

section \<open>The graph store\<close>

subsection \<open>The map\<close>

lemma map_inv_distinct: "map_inv m \<Longrightarrow> distinct (map fst m)"
  by (simp add: map_inv_def strict_sorted_iff)

lemma map_count_0: "map_count m k = 0 \<longleftrightarrow> k \<notin> fst ` set m"
  by (auto simp: map_count_def filter_empty_conv)

lemma set_map_insert: "fst ` set (map_insert k v m) = insert k (fst ` set m)"
  by (induction m) auto

lemma set_map_insert_new:
  "k \<notin> fst ` set m \<Longrightarrow> set (map_insert k v m) = insert (k, v) (set m)"
  by (induction m) auto

lemma map_inv_insert: "map_inv m \<Longrightarrow> map_inv (map_insert k v m)"
proof (induction m)
  case Nil
  then show ?case by (simp add: map_inv_def)
next
  case (Cons i m)
  have "\<forall>x \<in> fst ` set (map_insert k v m). fst i < x" if "fst i < k"
    using Cons.prems that by (auto simp: set_map_insert map_inv_def)
  with Cons show ?case
    by (auto simp: map_inv_def)
qed

lemma map_inv_erase: "map_inv m \<Longrightarrow> map_inv (map_erase k m)"
  by (induction m) (auto simp: map_inv_def map_erase_def)

lemma map_inv_same_keys: "map fst m' = map fst m \<Longrightarrow> map_inv m' = map_inv m"
  by (simp add: map_inv_def)

subsection \<open>The erasing loop\<close>

lemma erase_loop_no_match:
  "v \<notin> toVertex ` set rest \<Longrightarrow> erase_loop pe v b passed rest = Some (passed @ rest, b)"
  by (induction pe v b passed rest rule: erase_loop.induct) auto

lemma erase_loop_flag:
  "erase_loop pe v b passed rest = Some (r, b') \<Longrightarrow> b \<Longrightarrow> b'"
  by (induction pe v b passed rest rule: erase_loop.induct)
     (auto split: if_splits past_end.splits)

lemma erase_loop_False:
  "erase_loop pe v b passed rest = Some (r, False) \<Longrightarrow> r = passed @ rest"
proof (induction pe v b passed rest rule: erase_loop.induct)
  case (1 pe v edgeExists passed)
  then show ?case by simp
next
  case (2 pe v edgeExists passed j)
  show ?case
  proof (cases "toVertex j = v")
    case True
    with "2.prems" have "erase_loop pe v True [] passed = Some (r, False)"
      by (simp split: past_end.splits)
    from erase_loop_flag[OF this] show ?thesis by simp
  next
    case False
    with 2 show ?thesis by simp
  qed
next
  case (3 pe v edgeExists passed j j' js)
  show ?case
  proof (cases "toVertex j = v")
    case True
    with "3.prems" have "erase_loop pe v True (passed @ [j']) js = Some (r, False)"
      by simp
    from erase_loop_flag[OF this] show ?thesis by simp
  next
    case False
    with 3 show ?thesis by simp
  qed
qed

lemma erase_loop_filter:
  "distinct (map toVertex (passed @ rest)) \<Longrightarrow> v \<notin> toVertex ` set passed \<Longrightarrow>
   erase_loop pe v b passed rest = Some (r, b') \<Longrightarrow>
     r = passed @ filter (\<lambda>j. toVertex j \<noteq> v) rest \<and> (b' \<longleftrightarrow> b \<or> v \<in> toVertex ` set rest)"
proof (induction pe v b passed rest rule: erase_loop.induct)
  case (1 pe v edgeExists passed)
  then show ?case by simp
next
  case (2 pe v edgeExists passed j)
  show ?case
  proof (cases "toVertex j = v")
    case True
    with "2.prems"(3) have "erase_loop pe v True [] passed = Some (r, b')"
      by (simp split: past_end.splits)
    with erase_loop_no_match[OF "2.prems"(2), of pe True "[]"] True show ?thesis
      by simp
  next
    case False
    with "2.prems" show ?thesis by simp
  qed
next
  case (3 pe v edgeExists passed j j' js)
  show ?case
  proof (cases "toVertex j = v")
    case True
    with "3.prems"(1) have nv: "toVertex j' \<noteq> v" "v \<notin> toVertex ` set js" by auto
    from True "3.prems"(3) have "erase_loop pe v True (passed @ [j']) js = Some (r, b')"
      by simp
    moreover have "filter (\<lambda>j. toVertex j \<noteq> v) js = js"
      using nv(2) by (auto simp: filter_id_conv)
    ultimately show ?thesis
      using erase_loop_no_match[OF nv(2), of pe True "passed @ [j']"] True nv(1)
      by simp
  next
    case False
    with "3.prems" have e: "erase_loop pe v edgeExists (passed @ [j]) (j' # js) = Some (r, b')"
      by simp
    from "3.IH"(2)[OF False _ _ e] "3.prems"(1,2) False show ?thesis by simp
  qed
qed

lemma erase_loop_Circular: "erase_loop Circular v b passed rest \<noteq> None"
  by (induction Circular v b passed rest rule: erase_loop.induct) auto


subsection \<open>addVertex and addEdge\<close>

lemma invariants_iff:
  "invariants g \<longleftrightarrow>
     (\<forall>i \<in> set g. (\<forall>j \<in> set (edges (snd i)). fromVertex j = fst i \<and> toVertex j \<in> fst ` set g)
                   \<and> distinct (map toVertex (edges (snd i))))"
  by (simp add: invariants_def list_all_iff vertices_def)

lemma addVertex_Failed: "addVertex g v vi = Failed e g' \<Longrightarrow> g' = g"
  by (simp add: addVertex_def split: if_splits)

lemma addVertex_existing:
  "v \<in> set (vertices g) \<Longrightarrow> addVertex g v vi = Failed VertexAlreadyExists g"
  by (auto simp: addVertex_def vertices_def list_ex_iff)

lemma addVertex_Mutated:
  "addVertex g v vi = Mutated g' \<Longrightarrow>
     v \<notin> fst ` set g \<and> g' = map_insert v \<lparr>vinfo = vi, edges = []\<rparr> g"
  by (auto simp: addVertex_def list_ex_iff split: if_splits)

lemma addVertex_invariants:
  assumes "invariants g" and "addVertex g v vi = Mutated g'"
  shows "invariants g'"
proof -
  from addVertex_Mutated[OF assms(2)]
  have new: "v \<notin> fst ` set g" and g': "g' = map_insert v \<lparr>vinfo = vi, edges = []\<rparr> g"
    by simp_all
  have s: "set g' = insert (v, \<lparr>vinfo = vi, edges = []\<rparr>) (set g)"
    using new g' by (simp add: set_map_insert_new)
  have k: "fst ` set g' = insert v (fst ` set g)"
    using g' by (simp add: set_map_insert)
  from assms(1) show ?thesis
    unfolding invariants_iff k s by auto
qed

lemma addEdge_loop_Mutated:
  "addEdge_loop f t ei seen g = Mutated g' \<longleftrightarrow>
     (\<forall>i \<in> set g. fst i = f \<longrightarrow> t \<notin> toVertex ` set (edges (snd i)))
     \<and> g' = seen @ map (\<lambda>i. if fst i = f then push_edge f t ei i else i) g"
  by (induction g arbitrary: seen) (auto simp: list_ex_iff push_edge_def)

lemma addEdge_loop_Failed:
  "distinct (map fst g) \<Longrightarrow> addEdge_loop f t ei seen g = Failed e g' \<Longrightarrow>
     g' = seen @ g \<and> e = EdgeAlreadyExists
     \<and> (\<exists>i \<in> set g. fst i = f \<and> t \<in> toVertex ` set (edges (snd i)))"
proof (induction g arbitrary: seen)
  case Nil
  then show ?case by simp
next
  case (Cons i g)
  show ?case
  proof (cases "fst i = f")
    case True
    show ?thesis
    proof (cases "list_ex (\<lambda>j. toVertex j = t) (edges (snd i))")
      case dup: True
      with True Cons.prems show ?thesis by (auto simp: list_ex_iff)
    next
      case False
      from Cons.prems(1) True have "f \<notin> fst ` set g" by simp
      then have "\<forall>i' \<in> set g. fst i' \<noteq> f" by blast
      then have "addEdge_loop f t ei s g = Mutated (s @ g)" for s
        by (induction g arbitrary: s) auto
      with True False Cons.prems(2) show ?thesis by simp
    qed
  next
    case False
    with Cons.prems have "addEdge_loop f t ei (seen @ [i]) g = Failed e g'" by simp
    from Cons.IH[OF _ this] Cons.prems(1) show ?thesis by auto
  qed
qed

lemma addEdge_Failed:
  "map_inv g \<Longrightarrow> addEdge g f t ei = Failed e g' \<Longrightarrow> g' = g"
  by (auto simp: addEdge_def split: if_splits dest: addEdge_loop_Failed[OF map_inv_distinct])

lemma addEdge_loop_existing:
  "distinct (map fst g) \<Longrightarrow> i \<in> set g \<Longrightarrow> fst i = f \<Longrightarrow> t \<in> toVertex ` set (edges (snd i)) \<Longrightarrow>
     addEdge_loop f t ei seen g = Failed EdgeAlreadyExists (seen @ g)"
proof (induction g arbitrary: seen)
  case Nil
  then show ?case by simp
next
  case (Cons a g)
  show ?case
  proof (cases "a = i")
    case True
    with Cons.prems show ?thesis by (auto simp: list_ex_iff)
  next
    case False
    with Cons.prems have ig: "i \<in> set g" by simp
    then have "fst i \<in> fst ` set g" by (rule imageI)
    with Cons.prems have "fst a \<noteq> f" by auto
    with Cons ig show ?thesis by simp
  qed
qed

lemma edgesAll_iff:
  "(a, b) \<in> set (edgesAll g) \<longleftrightarrow>
     (\<exists>i \<in> set g. \<exists>j \<in> set (edges (snd i)). fromVertex j = a \<and> toVertex j = b)"
  by (auto simp: edgesAll_def edge_pairs_def)

lemma addEdge_existing:
  assumes "map_inv g" and "invariants g" and "(f, t) \<in> set (edgesAll g)"
  shows "addEdge g f t ei = Failed EdgeAlreadyExists g"
proof -
  from assms(3) obtain i j where i: "i \<in> set g" and j: "j \<in> set (edges (snd i))"
    and ft: "fromVertex j = f" "toVertex j = t"
    by (auto simp: edgesAll_iff)
  from assms(2) i j ft have k: "fst i = f" "t \<in> fst ` set g"
    by (auto simp: invariants_iff)
  from i k have "map_count g f \<noteq> 0" "map_count g t \<noteq> 0"
    by (auto simp: map_count_0)
  moreover have "addEdge_loop f t ei [] g = Failed EdgeAlreadyExists ([] @ g)"
    using addEdge_loop_existing[OF map_inv_distinct[OF assms(1)] i k(1)] j ft(2) by blast
  ultimately show ?thesis by (simp add: addEdge_def)
qed

lemma addEdge_Mutated:
  "addEdge g f t ei = Mutated g' \<Longrightarrow>
     f \<in> fst ` set g \<and> t \<in> fst ` set g
     \<and> (\<forall>i \<in> set g. fst i = f \<longrightarrow> t \<notin> toVertex ` set (edges (snd i)))
     \<and> g' = map (\<lambda>i. if fst i = f then push_edge f t ei i else i) g"
  by (auto simp: addEdge_def map_count_0 addEdge_loop_Mutated split: if_splits)

lemma addEdge_invariants:
  assumes "invariants g" and "addEdge g f t ei = Mutated g'"
  shows "invariants g'" and "map fst g' = map fst g"
proof -
  from addEdge_Mutated[OF assms(2)]
  have t: "t \<in> fst ` set g"
    and nodup: "\<forall>i \<in> set g. fst i = f \<longrightarrow> t \<notin> toVertex ` set (edges (snd i))"
    and g': "g' = map (\<lambda>i. if fst i = f then push_edge f t ei i else i) g"
    by simp_all
  show k: "map fst g' = map fst g"
    unfolding g' by (induction g) (auto simp: push_edge_def)
  then have ks: "fst ` set g' = fst ` set g"
    by (metis set_map)
  show "invariants g'"
    unfolding invariants_iff ks
  proof
    fix i' assume "i' \<in> set g'"
    then obtain i where i: "i \<in> set g" and i': "i' = (if fst i = f then push_edge f t ei i else i)"
      unfolding g' set_map by blast
    from assms(1) i have inv: "\<forall>j \<in> set (edges (snd i)). fromVertex j = fst i \<and> toVertex j \<in> fst ` set g"
      "distinct (map toVertex (edges (snd i)))"
      by (auto simp: invariants_iff)
    show "(\<forall>j \<in> set (edges (snd i')). fromVertex j = fst i' \<and> toVertex j \<in> fst ` set g)
            \<and> distinct (map toVertex (edges (snd i')))"
    proof (cases "fst i = f")
      case True
      with nodup i have "t \<notin> toVertex ` set (edges (snd i))" by blast
      with True inv t i' show ?thesis by (auto simp: push_edge_def)
    next
      case False
      with inv i' show ?thesis by simp
    qed
  qed
qed


subsection \<open>removeVertex and removeEdge\<close>

lemma removeVertex_loop_eq:
  "\<forall>i \<in> set g. distinct (map toVertex (edges (snd i))) \<Longrightarrow>
   removeVertex_loop pe v g = Some g' \<Longrightarrow>
     g' = map (\<lambda>i. if fst i = v then (fst i, (snd i)\<lparr>edges := []\<rparr>) else drop_edges_to v i) g"
proof (induction g arbitrary: g')
  case Nil
  then show ?case by simp
next
  case (Cons i g)
  let ?es = "if fst i = v then [] else edges (snd i)"
  from Cons.prems(2) obtain es' b r where e: "erase_loop pe v False [] ?es = Some (es', b)"
    and r: "removeVertex_loop pe v g = Some r" and g': "g' = (fst i, (snd i)\<lparr>edges := es'\<rparr>) # r"
    by (auto simp: Let_def split: option.splits)
  from Cons.prems(1) have "distinct (map toVertex ([] @ ?es))" by simp
  from erase_loop_filter[OF this _ e] have "es' = filter (\<lambda>j. toVertex j \<noteq> v) ?es" by simp
  moreover from Cons.IH[OF _ r] Cons.prems(1)
  have "r = map (\<lambda>i. if fst i = v then (fst i, (snd i)\<lparr>edges := []\<rparr>) else drop_edges_to v i) g"
    by simp
  ultimately show ?case using g' by (simp add: drop_edges_to_def)
qed

lemma removeVertex_Failed: "removeVertex pe g v = Failed e g' \<Longrightarrow> g' = g"
  by (simp add: removeVertex_def split: if_splits option.splits)

lemma removeVertex_Mutated:
  assumes "invariants g" and "removeVertex pe g v = Mutated g'"
  shows "g' = map (drop_edges_to v) (map_erase v g)"
proof -
  from assms(2) obtain h where h: "removeVertex_loop pe v g = Some h" and g': "g' = map_erase v h"
    by (auto simp: removeVertex_def split: if_splits option.splits)
  from assms(1) have "\<forall>i \<in> set g. distinct (map toVertex (edges (snd i)))"
    by (simp add: invariants_iff)
  from removeVertex_loop_eq[OF this h]
  have "h = map (\<lambda>i. if fst i = v then (fst i, (snd i)\<lparr>edges := []\<rparr>) else drop_edges_to v i) g" .
  then show ?thesis
    unfolding g' map_erase_def by (simp add: filter_map comp_def drop_edges_to_def cong: map_cong)
qed

lemma removeVertex_invariants:
  assumes "invariants g" and "removeVertex pe g v = Mutated g'"
  shows "invariants g'"
    and "v \<notin> set (vertices g')"
    and "\<forall>p \<in> set (edgesAll g'). fst p \<noteq> v \<and> snd p \<noteq> v"
    and "map_inv g \<Longrightarrow> map_inv g'"
proof -
  note g' = removeVertex_Mutated[OF assms]
  have k: "map fst g' = map fst (map_erase v g)"
    unfolding g' by (simp add: drop_edges_to_def comp_def)
  then have ks: "fst ` set g' = fst ` set g - {v}"
    unfolding set_map[symmetric] k by (auto simp: map_erase_def)
  show "v \<notin> set (vertices g')"
    using ks by (simp add: vertices_def)
  show inv: "invariants g'"
    unfolding invariants_iff ks
  proof
    fix i' assume "i' \<in> set g'"
    then obtain i where i: "i \<in> set g" "fst i \<noteq> v" and i': "i' = drop_edges_to v i"
      unfolding g' by (auto simp: map_erase_def)
    from assms(1) i(1) have "\<forall>j \<in> set (edges (snd i)). fromVertex j = fst i \<and> toVertex j \<in> fst ` set g"
      "distinct (map toVertex (edges (snd i)))"
      by (auto simp: invariants_iff)
    then show "(\<forall>j \<in> set (edges (snd i')). fromVertex j = fst i' \<and> toVertex j \<in> fst ` set g - {v})
            \<and> distinct (map toVertex (edges (snd i')))"
      unfolding i' by (auto simp: drop_edges_to_def distinct_map_filter)
  qed
  show "\<forall>p \<in> set (edgesAll g'). fst p \<noteq> v \<and> snd p \<noteq> v"
  proof
    fix p assume "p \<in> set (edgesAll g')"
    moreover obtain a b where "p = (a, b)" by (cases p)
    ultimately have "\<exists>i \<in> set g'. \<exists>j \<in> set (edges (snd i)). fromVertex j = a \<and> toVertex j = b"
      and "p = (a, b)"
      by (simp_all add: edgesAll_iff)
    then obtain i j where "i \<in> set g'" "j \<in> set (edges (snd i))" "p = (fromVertex j, toVertex j)"
      by blast
    moreover from this inv have "fromVertex j = fst i" "toVertex j \<in> fst ` set g'"
      by (auto simp: invariants_iff)
    ultimately show "fst p \<noteq> v \<and> snd p \<noteq> v"
      using ks by auto
  qed
  show "map_inv g'" if "map_inv g"
    using map_inv_erase[OF that, of v] k by (simp add: map_inv_def)
qed

lemma removeEdge_loop_flag:
  "removeEdge_loop pe f t x h = Some (r, y) \<Longrightarrow> x \<Longrightarrow> y"
proof (induction h arbitrary: x r)
  case Nil
  then show ?case by simp
next
  case (Cons i h)
  show ?case
  proof (cases "fst i = f")
    case True
    with Cons.prems obtain es' b' r' where e: "erase_loop pe t x [] (edges (snd i)) = Some (es', b')"
      and "removeEdge_loop pe f t b' h = Some (r', y)"
      by (auto split: option.splits)
    from Cons.IH[OF this(2)] erase_loop_flag[OF e] Cons.prems(2) show ?thesis by simp
  next
    case False
    with Cons.prems obtain r' where "removeEdge_loop pe f t x h = Some (r', y)"
      by auto
    from Cons.IH[OF this] Cons.prems(2) show ?thesis by simp
  qed
qed

lemma removeEdge_loop_unchanged:
  "removeEdge_loop pe f t b g = Some (g', False) \<Longrightarrow> g' = g"
proof (induction g arbitrary: g' b)
  case Nil
  then show ?case by simp
next
  case (Cons i g)
  show ?case
  proof (cases "fst i = f")
    case True
    with Cons.prems obtain es' b' r where e: "erase_loop pe t b [] (edges (snd i)) = Some (es', b')"
      and r: "removeEdge_loop pe f t b' g = Some (r, False)"
      and g': "g' = (fst i, (snd i)\<lparr>edges := es'\<rparr>) # r"
      by (auto split: option.splits)
    from removeEdge_loop_flag[OF r] have "b' = False" by auto
    with e have "es' = edges (snd i)" using erase_loop_False[of pe t b "[]"] by simp
    with Cons.IH[OF r] g' show ?thesis by simp
  next
    case False
    with Cons show ?thesis by auto
  qed
qed

lemma removeEdge_Failed: "removeEdge pe g f t = Failed e g' \<Longrightarrow> g' = g"
  by (auto simp: removeEdge_def split: if_splits option.splits dest: removeEdge_loop_unchanged)

lemma removeEdge_loop_eq:
  "\<forall>i \<in> set g. distinct (map toVertex (edges (snd i))) \<Longrightarrow>
   removeEdge_loop pe f t b g = Some (g', x) \<Longrightarrow>
     g' = map (\<lambda>i. if fst i = f then drop_edges_to t i else i) g"
proof (induction g arbitrary: g' b)
  case Nil
  then show ?case by simp
next
  case (Cons i g)
  show ?case
  proof (cases "fst i = f")
    case True
    with Cons.prems(2) obtain es' b' r where e: "erase_loop pe t b [] (edges (snd i)) = Some (es', b')"
      and r: "removeEdge_loop pe f t b' g = Some (r, x)"
      and g': "g' = (fst i, (snd i)\<lparr>edges := es'\<rparr>) # r"
      by (auto split: option.splits)
    from Cons.prems(1) have "distinct (map toVertex ([] @ edges (snd i)))" by simp
    from erase_loop_filter[OF this _ e] have "es' = filter (\<lambda>j. toVertex j \<noteq> t) (edges (snd i))"
      by simp
    moreover from Cons.IH[OF _ r] Cons.prems(1)
    have "r = map (\<lambda>i. if fst i = f then drop_edges_to t i else i) g" by simp
    ultimately show ?thesis using g' True by (simp add: drop_edges_to_def)
  next
    case False
    with Cons.prems(2) obtain r where r: "removeEdge_loop pe f t b g = Some (r, x)"
      and g': "g' = i # r"
      by auto
    from Cons.IH[OF _ r] Cons.prems(1) g' False show ?thesis by simp
  qed
qed

lemma removeEdge_invariants:
  assumes "invariants g" and "removeEdge pe g f t = Mutated g'"
  shows "invariants g'" and "map fst g' = map fst g"
proof -
  from assms(2) obtain x where l: "removeEdge_loop pe f t False g = Some (g', x)"
    by (auto simp: removeEdge_def split: if_splits option.splits)
  from assms(1) have "\<forall>i \<in> set g. distinct (map toVertex (edges (snd i)))"
    by (simp add: invariants_iff)
  from removeEdge_loop_eq[OF this l]
  have g': "g' = map (\<lambda>i. if fst i = f then drop_edges_to t i else i) g" .
  show k: "map fst g' = map fst g"
    unfolding g' by (induction g) (auto simp: drop_edges_to_def)
  then have ks: "fst ` set g' = fst ` set g"
    by (metis set_map)
  show "invariants g'"
    unfolding invariants_iff ks
  proof
    fix i' assume "i' \<in> set g'"
    then obtain i where i: "i \<in> set g" and i': "i' = (if fst i = f then drop_edges_to t i else i)"
      unfolding g' set_map by blast
    from assms(1) i have "\<forall>j \<in> set (edges (snd i)). fromVertex j = fst i \<and> toVertex j \<in> fst ` set g"
      "distinct (map toVertex (edges (snd i)))"
      by (auto simp: invariants_iff)
    then show "(\<forall>j \<in> set (edges (snd i')). fromVertex j = fst i' \<and> toVertex j \<in> fst ` set g)
            \<and> distinct (map toVertex (edges (snd i')))"
      unfolding i' by (auto simp: drop_edges_to_def distinct_map_filter)
  qed
qed

lemma removeVertex_loop_Circular: "removeVertex_loop Circular v g \<noteq> None"
proof (induction g)
  case Nil
  then show ?case by simp
next
  case (Cons i g)
  obtain es' b where "erase_loop Circular v False [] (if fst i = v then [] else edges (snd i))
                        = Some (es', b)"
    using erase_loop_Circular[of v False "[]" "if fst i = v then [] else edges (snd i)"]
    by fastforce
  with Cons show ?case by (auto simp: Let_def)
qed

lemma removeEdge_loop_Circular: "removeEdge_loop Circular f t b g \<noteq> None"
proof (induction g arbitrary: b)
  case Nil
  then show ?case by simp
next
  case (Cons i g)
  obtain es' b' where e: "erase_loop Circular t b [] (edges (snd i)) = Some (es', b')"
    using erase_loop_Circular[of t b "[]" "edges (snd i)"] by fastforce
  from Cons[of b'] Cons[of b] show ?case
    by (cases "fst i = f") (auto simp: e)
qed

text \<open>With circular lists both removals have an outcome on every graph.\<close>

lemma removal_Circular_defined:
  "removeVertex Circular g v \<noteq> UndefinedM" "removeEdge Circular g f t \<noteq> UndefinedM"
  using removeVertex_loop_Circular[of v g] removeEdge_loop_Circular[of f t False g]
  by (auto simp: removeVertex_def removeEdge_def split: option.splits)

section \<open>The graph store: claims\<close>

lemma state_after_cases:
  assumes "state_after m = Some s"
  obtains (Mutated) "m = Mutated s" | (Failed) e where "m = Failed e s"
  using assms by (cases m) (auto simp: state_after_def)

lemma addVertex_after:
  assumes "map_inv g" and "invariants g" and "state_after (addVertex g v vi) = Some g'"
  shows "map_inv g' \<and> invariants g'"
  using assms(3)
proof (cases rule: state_after_cases)
  case Mutated
  from addVertex_Mutated[OF Mutated] map_inv_insert[OF assms(1)] have "map_inv g'" by simp
  with addVertex_invariants[OF assms(2) Mutated] show ?thesis by simp
next
  case (Failed e)
  from addVertex_Failed[OF Failed] assms show ?thesis by simp
qed

lemma addEdge_after:
  assumes "map_inv g" and "invariants g" and "state_after (addEdge g f t ei) = Some g'"
  shows "map_inv g' \<and> invariants g'"
  using assms(3)
proof (cases rule: state_after_cases)
  case Mutated
  from addEdge_invariants[OF assms(2) Mutated] assms(1) show ?thesis
    by (simp add: map_inv_def)
next
  case (Failed e)
  from addEdge_Failed[OF assms(1) Failed] assms show ?thesis by simp
qed

lemma removeVertex_after:
  assumes "map_inv g" and "invariants g" and "state_after (removeVertex pe g u) = Some g'"
  shows "map_inv g' \<and> invariants g'"
  using assms(3)
proof (cases rule: state_after_cases)
  case Mutated
  from removeVertex_invariants(1,4)[OF assms(2) Mutated] assms(1) show ?thesis by simp
next
  case (Failed e)
  from removeVertex_Failed[OF Failed] assms show ?thesis by simp
qed

lemma removeEdge_after:
  assumes "map_inv g" and "invariants g" and "state_after (removeEdge pe g a b) = Some g'"
  shows "map_inv g' \<and> invariants g'"
  using assms(3)
proof (cases rule: state_after_cases)
  case Mutated
  from removeEdge_invariants[OF assms(2) Mutated] assms(1) show ?thesis
    by (simp add: map_inv_def)
next
  case (Failed e)
  from removeEdge_Failed[OF Failed] assms show ?thesis by simp
qed

text \<open>
  C6. Every mutating operation preserves the structural invariants: from a graph whose
  keys are unique and ordered (\<open>map_inv\<close>) and whose edges are stored under their
  source, end at present vertices and do not repeat a destination under one source
  (\<open>invariants\<close>), the graph left by \<open>addVertex\<close>, \<open>addEdge\<close>, \<open>removeVertex\<close> or
  \<open>removeEdge\<close> (on return and on a throw alike) has them again, whichever way the
  list iterator behaves past the end. After \<open>removeVertex\<close> has returned, the vertex
  is absent and no pair of \<open>edges()\<close> has it as source or destination.
\<close>

theorem operations_preserve_invariants:
  assumes "map_inv g" and "invariants g"
  shows "(state_after (addVertex g v vi) = Some g1 \<longrightarrow> map_inv g1 \<and> invariants g1)
       \<and> (state_after (addEdge g f t ei) = Some g2 \<longrightarrow> map_inv g2 \<and> invariants g2)
       \<and> (state_after (removeVertex pe g u) = Some g3 \<longrightarrow> map_inv g3 \<and> invariants g3)
       \<and> (state_after (removeEdge pe g a b) = Some g4 \<longrightarrow> map_inv g4 \<and> invariants g4)
       \<and> (removeVertex pe g u = Mutated g3 \<longrightarrow>
            u \<notin> set (vertices g3) \<and> (\<forall>p \<in> set (edgesAll g3). fst p \<noteq> u \<and> snd p \<noteq> u))"
proof -
  have 1: "state_after (addVertex g v vi) = Some g1 \<longrightarrow> map_inv g1 \<and> invariants g1"
    using addVertex_after[OF assms] by blast
  have 2: "state_after (addEdge g f t ei) = Some g2 \<longrightarrow> map_inv g2 \<and> invariants g2"
    using addEdge_after[OF assms] by blast
  have 3: "state_after (removeVertex pe g u) = Some g3 \<longrightarrow> map_inv g3 \<and> invariants g3"
    using removeVertex_after[OF assms] by blast
  have 4: "state_after (removeEdge pe g a b) = Some g4 \<longrightarrow> map_inv g4 \<and> invariants g4"
    using removeEdge_after[OF assms] by blast
  have 5: "removeVertex pe g u = Mutated g3 \<longrightarrow>
             u \<notin> set (vertices g3) \<and> (\<forall>p \<in> set (edgesAll g3). fst p \<noteq> u \<and> snd p \<noteq> u)"
    using removeVertex_invariants(2,3)[OF assms(2), of pe u g3] by blast
  from 1 2 3 4 5 show ?thesis by (intro conjI)
qed

text \<open>
  C7. A mutating operation that throws leaves the graph as it was. \<open>addVertex\<close> on a
  present key throws \<open>VertexAlreadyExists\<close> and \<open>addEdge\<close> on a pair that has an edge
  throws \<open>EdgeAlreadyExists\<close>, each with the graph unchanged.
\<close>

theorem failed_mutation_keeps_state:
  assumes "map_inv g" and "invariants g"
  shows "(addVertex g v vi = Failed e1 g1 \<longrightarrow> g1 = g)
       \<and> (addEdge g f t ei = Failed e2 g2 \<longrightarrow> g2 = g)
       \<and> (removeVertex pe g u = Failed e3 g3 \<longrightarrow> g3 = g)
       \<and> (removeEdge pe g a b = Failed e4 g4 \<longrightarrow> g4 = g)
       \<and> (v' \<in> set (vertices g) \<longrightarrow> addVertex g v' vi' = Failed VertexAlreadyExists g)
       \<and> ((f', t') \<in> set (edgesAll g) \<longrightarrow> addEdge g f' t' ei' = Failed EdgeAlreadyExists g)"
  using assms
  by (auto dest: addVertex_Failed addEdge_Failed removeVertex_Failed removeEdge_Failed
           simp: addVertex_existing addEdge_existing)


theorem operations_preserve_invariants_witness:
  "map_inv star_graph \<and> invariants star_graph
   \<and> state_after (addVertex star_graph 4 ()) = Some (star_graph @ [mk_vertex 4 []])
   \<and> invariants (star_graph @ [mk_vertex 4 []])
   \<and> state_after (addEdge star_graph 2 3 7)
       = Some [mk_vertex 1 [(2, 0), (3, 0)], mk_vertex 2 [(3, 7)], mk_vertex 3 []]
   \<and> invariants [mk_vertex 1 [(2, 0), (3, 0)], mk_vertex 2 [(3, 7)], mk_vertex 3 []]
   \<and> removeVertex Circular star_graph 3 = Mutated [mk_vertex 1 [(2, 0)], mk_vertex 2 []]
   \<and> invariants [mk_vertex 1 [(2, 0)], mk_vertex 2 []]
   \<and> edgesAll [mk_vertex 1 [(2, 0)], mk_vertex 2 []] = [(1, 2)]
   \<and> state_after (removeEdge Circular star_graph 1 3)
       = Some [mk_vertex 1 [(2, 0)], mk_vertex 2 [], mk_vertex 3 []]
   \<and> invariants [mk_vertex 1 [(2, 0)], mk_vertex 2 [], mk_vertex 3 []]"
proof -
  have h: "map_inv star_graph" "invariants star_graph"
    by code_simp+
  have e1: "state_after (addVertex star_graph 4 ()) = Some (star_graph @ [mk_vertex 4 []])"
    by code_simp
  have e2: "state_after (addEdge star_graph 2 3 7)
              = Some [mk_vertex 1 [(2, 0), (3, 0)], mk_vertex 2 [(3, 7)], mk_vertex 3 []]"
    by code_simp
  have e3: "removeVertex Circular star_graph 3 = Mutated [mk_vertex 1 [(2, 0)], mk_vertex 2 []]"
    by code_simp
  have e4: "state_after (removeEdge Circular star_graph 1 3)
              = Some [mk_vertex 1 [(2, 0)], mk_vertex 2 [], mk_vertex 3 []]"
    by code_simp
  have e5: "edgesAll [mk_vertex 1 [(2, 0)], mk_vertex 2 []] = [(1, 2)]"
    by code_simp
  have e3': "state_after (removeVertex Circular star_graph 3)
               = Some [mk_vertex 1 [(2, 0)], mk_vertex 2 []]"
    by (simp add: e3 state_after_def)
  from operations_preserve_invariants[OF h, where v = 4 and vi = "()"
      and ?g1.0 = "star_graph @ [mk_vertex 4 []]" and f = 2 and t = 3 and ei = 7
      and ?g2.0 = "[mk_vertex 1 [(2, 0), (3, 0)], mk_vertex 2 [(3, 7)], mk_vertex 3 []]"
      and pe = Circular and u = 3 and ?g3.0 = "[mk_vertex 1 [(2, 0)], mk_vertex 2 []]"
      and a = 1 and b = 3
      and ?g4.0 = "[mk_vertex 1 [(2, 0)], mk_vertex 2 [], mk_vertex 3 []]"]
  show ?thesis
    using h e1 e2 e3 e3' e4 e5 by simp
qed

theorem failed_mutation_keeps_state_witness:
  "map_inv star_graph \<and> invariants star_graph
   \<and> addVertex star_graph 1 () = Failed VertexAlreadyExists star_graph
   \<and> addEdge star_graph 1 2 5 = Failed EdgeAlreadyExists star_graph
   \<and> removeVertex Circular star_graph 9 = Failed VertexNotFound star_graph
   \<and> removeEdge Circular star_graph 2 3 = Failed EdgeNotFound star_graph
   \<and> 1 \<in> set (vertices star_graph) \<and> (1, 2) \<in> set (edgesAll star_graph)"
proof -
  have h: "map_inv star_graph" "invariants star_graph"
    by code_simp+
  have v: "1 \<in> set (vertices star_graph)" "(1, 2) \<in> set (edgesAll star_graph)"
    by code_simp+
  have "\<exists>g'. removeVertex Circular star_graph 9 = Failed VertexNotFound g'"
    by (simp add: removeVertex_def map_count_def star_graph_def mk_vertex_def)
  moreover have "\<exists>g'. removeEdge Circular star_graph 2 3 = Failed EdgeNotFound g'"
    by (simp add: removeEdge_def map_count_def star_graph_def mk_vertex_def)
  ultimately show ?thesis
    using failed_mutation_keeps_state[OF h, where pe = Circular and u = 9
        and ?e3.0 = VertexNotFound and a = 2 and b = 3 and ?e4.0 = EdgeNotFound and v' = 1
        and vi' = "()" and f' = 1 and t' = 2 and ei' = 5] h v
    by auto
qed

text \<open>
  The last edge of a list: with \<open>Unspecified\<close> the removal has no outcome, with
  \<open>Circular\<close> it removes the edge.
\<close>

lemma removeEdge_last_edge:
  "removeEdge Unspecified star_graph 1 3 = UndefinedM
   \<and> removeEdge Circular star_graph 1 3
       = Mutated [mk_vertex 1 [(2, 0)], mk_vertex 2 [], mk_vertex 3 []]"
  by code_simp

lemma split_key:
  assumes "distinct (map fst g)" and "v \<in> fst ` set g"
  obtains xs d ys where "g = xs @ (v, d) # ys" and "v \<notin> fst ` set xs" and "v \<notin> fst ` set ys"
proof -
  from assms(2) obtain d where "(v, d) \<in> set g" by auto
  then obtain xs ys where g: "g = xs @ (v, d) # ys" by (auto dest: split_list)
  with assms(1) have "v \<notin> fst ` set xs" "v \<notin> fst ` set ys" by auto
  with g that show thesis by blast
qed

lemma map_other_keys:
  "v \<notin> fst ` set xs \<Longrightarrow> map (\<lambda>i. if fst i = v then h i else i) xs = xs"
  by (induction xs) auto

lemma edgeInfo_loop_skip:
  "f \<notin> fst ` set xs \<Longrightarrow> edgeInfo_loop f t (xs @ ys) = edgeInfo_loop f t ys"
  by (induction xs) auto

lemma find_append_None:
  "find P xs = None \<Longrightarrow> find P (xs @ ys) = find P ys"
  by (induction xs) (auto split: if_splits)

lemma concat_other_keys:
  "v \<notin> fst ` set xs \<Longrightarrow> concat (map (\<lambda>i. if fst i = v then h i else []) xs) = []"
  by (induction xs) auto

lemma sum_other_keys:
  "v \<notin> fst ` set xs \<Longrightarrow> sum_list (map (\<lambda>i. if fst i = v then h i else (0::nat)) xs) = 0"
  by (induction xs) auto

text \<open>
  C10. Self-loops are permitted: for a present vertex \<open>v\<close> without an edge \<open>v\<rightarrow>v\<close>,
  \<open>addEdge(v, v, payload)\<close> returns; afterwards \<open>(v, v)\<close> is among \<open>edges()\<close> and
  \<open>edges(v)\<close>, \<open>edgeCount()\<close> and \<open>edgeCount(v)\<close> have grown by one, and
  \<open>edgeInfo(v, v)\<close> is the payload.
\<close>

theorem self_loop_permitted:
  assumes "map_inv g" and "invariants g" and "v \<in> set (vertices g)"
    and "(v, v) \<notin> set (edgesAll g)"
  shows "\<exists>g' es n. addEdge g v v ei = Mutated g'
           \<and> (v, v) \<in> set (edgesAll g')
           \<and> edgesOf g' v = Returns es \<and> (v, v) \<in> set es
           \<and> edgeCount g' = edgeCount g + 1
           \<and> edgeCountOf g v = Returns n \<and> edgeCountOf g' v = Returns (n + 1)
           \<and> edgeInfo g' v v = Returns ei"
proof -
  from assms(3) have vk: "v \<in> fst ` set g" by (simp add: vertices_def)
  from split_key[OF map_inv_distinct[OF assms(1)] vk]
  obtain xs d ys where g: "g = xs @ (v, d) # ys"
    and nx: "v \<notin> fst ` set xs" and ny: "v \<notin> fst ` set ys" .
  have nodup: "v \<notin> toVertex ` set (edges d)"
  proof
    assume "v \<in> toVertex ` set (edges d)"
    then obtain j where j: "j \<in> set (edges d)" "toVertex j = v" by auto
    with assms(2) g have "fromVertex j = v" by (auto simp: invariants_iff)
    with j g have "(v, v) \<in> set (edgesAll g)" by (auto simp: edgesAll_iff)
    with assms(4) show False by simp
  qed
  let ?new = "\<lparr>fromVertex = v, toVertex = v, einfo = ei\<rparr>"
  let ?d' = "d\<lparr>edges := edges d @ [?new]\<rparr>"
  let ?g' = "xs @ (v, ?d') # ys"
  have m: "map (\<lambda>i. if fst i = v then push_edge v v ei i else i) g = ?g'"
    unfolding g using nx ny by (simp add: map_other_keys push_edge_def)
  have all: "\<forall>i \<in> set g. fst i = v \<longrightarrow> v \<notin> toVertex ` set (edges (snd i))"
    unfolding g using nx ny nodup by auto
  have c: "map_count g v \<noteq> 0" "map_count ?g' v \<noteq> 0"
    unfolding g by (simp_all add: map_count_0)
  have 1: "addEdge g v v ei = Mutated ?g'"
    using c(1) all m by (simp add: addEdge_def addEdge_loop_Mutated)
  have 2: "(v, v) \<in> set (edgesAll ?g')"
    by (simp add: edgesAll_iff)
  have 3: "edgesOf ?g' v = Returns (edge_pairs (edges ?d'))"
    using c(2) nx ny by (simp add: edgesOf_def concat_other_keys)
  have 4: "(v, v) \<in> set (edge_pairs (edges ?d'))"
    by (simp add: edge_pairs_def)
  have 5: "edgeCount ?g' = edgeCount g + 1"
    unfolding g by (simp add: edgeCount_def)
  have 6: "edgeCountOf g v = Returns (int (length (edges d)))"
    using c(1) nx ny unfolding g by (simp add: edgeCountOf_def sum_other_keys)
  have 7: "edgeCountOf ?g' v = Returns (int (length (edges d)) + 1)"
    using c(2) nx ny by (simp add: edgeCountOf_def sum_other_keys)
  have "find (\<lambda>j. toVertex j = v) (edges d) = None"
    using nodup by (auto simp: find_None_iff)
  then have 8: "edgeInfo ?g' v v = Returns ei"
    using c(2) nx by (simp add: edgeInfo_def edgeInfo_loop_skip find_append_None)
  from 1 2 3 4 5 6 7 8 show ?thesis by blast
qed

theorem self_loop_permitted_witness:
  "map_inv star_graph \<and> invariants star_graph \<and> 2 \<in> set (vertices star_graph)
   \<and> (2, 2) \<notin> set (edgesAll star_graph)
   \<and> (\<exists>g'. addEdge star_graph 2 2 7 = Mutated g' \<and> edgeInfo g' 2 2 = Returns 7
            \<and> edgeCount g' = 3)"
proof -
  have h: "map_inv star_graph" "invariants star_graph" "2 \<in> set (vertices star_graph)"
    "(2, 2) \<notin> set (edgesAll star_graph)"
    by code_simp+
  have "edgeCount star_graph = 2"
    by code_simp
  with self_loop_permitted[OF h, of 7] h show ?thesis
    by auto
qed

section \<open>Move transfer: claims\<close>

text \<open>
  C9 as stated: after any move transfer the source graph is empty. It fails for move
  assignment: with \<open>star_graph\<close> as destination and \<open>detour_graph\<close> as source, the
  source holds the three vertices and two edges of \<open>star_graph\<close> afterwards.
\<close>

theorem move_assign_source_not_empty:
  "vertices (move_assign two_graphs 0 (Suc 0) (Suc 0)) = [1, 2, 3]
   \<and> edgesAll (move_assign two_graphs 0 (Suc 0) (Suc 0)) = [(1, 2), (1, 3)]"
  by (simp add: move_assign_def swap_graph_def two_graphs_def star_graph_def mk_vertex_def
      vertices_def edgesAll_def edge_pairs_def)

text \<open>
  C9 as amended. Move construction leaves the source empty (no vertices, no edges) and
  the new graph with the source's former content. Move assignment from another object
  exchanges the two contents: the source holds what the destination held before (it is
  empty exactly when the destination was), the destination what the source held.
  Move assignment of an object to itself changes nothing.
\<close>

theorem move_transfer:
  assumes "this \<noteq> d"
  shows "vertices (move_construct h this d d) = []
       \<and> edgesAll (move_construct h this d d) = []
       \<and> move_construct h this d this = h d
       \<and> move_assign h this d d = h this
       \<and> move_assign h this d this = h d
       \<and> move_assign h d d = h"
  using assms
  by (simp add: move_construct_def move_assign_def swap_graph_def vertices_def edgesAll_def)

theorem move_transfer_witness:
  "(0 :: nat) \<noteq> Suc 0
   \<and> vertices (move_construct two_graphs 0 (Suc 0) (Suc 0)) = []
   \<and> move_construct two_graphs 0 (Suc 0) 0 = detour_graph
   \<and> move_assign two_graphs 0 (Suc 0) (Suc 0) = star_graph
   \<and> move_assign two_graphs 0 (Suc 0) 0 = detour_graph"
proof -
  have h: "(0 :: nat) \<noteq> Suc 0" by simp
  have "two_graphs 0 = star_graph" "two_graphs (Suc 0) = detour_graph"
    by (simp_all add: two_graphs_def)
  with move_transfer[OF h, of two_graphs] show ?thesis
    by simp
qed

section \<open>Shortest paths: what the code computes\<close>

text \<open>
  C1. \<open>findShortestPaths\<close> is to return, for every vertex reachable from the start, a
  predecessor on a minimum-weight path. On \<open>detour_graph\<close> from vertex 1 (all weights
  non-negative integers) the call returns predecessor 3 for vertex 4, and 1 for vertex 3:
  its path to 4 is 1\<rightarrow>3\<rightarrow>4 of weight 6, while 1\<rightarrow>3\<rightarrow>2\<rightarrow>4 weighs 3. The returned map is
  no shortest-path tree.
\<close>

theorem findShortestPaths_not_shortest:
  "findShortestPaths detour_graph 1 of_int = Returns [(1, 1), (2, 3), (3, 1), (4, 3)]
   \<and> path_weight detour_graph of_int [1, 3, 4] = Some 6
   \<and> path_weight detour_graph of_int [1, 3, 2, 4] = Some 3"
  by code_simp

text \<open>
  The distances are kept in a \<open>std::vector<int>\<close>, so every stored distance is
  truncated. On \<open>fraction_graph\<close> from vertex 0 the distance of vertex 1 is stored as 0
  instead of 3/4, the edge 1\<rightarrow>2 then seems to improve on the distance 1 stored for
  vertex 2, and vertex 2 gets the predecessor 1, although 0\<rightarrow>2 weighs 3/2 and
  0\<rightarrow>1\<rightarrow>2 weighs 13/8.
\<close>

lemma findShortestPaths_truncates:
  "findShortestPaths fraction_graph 0 (\<lambda>x. x) = Returns [(0, 0), (1, 0), (2, 1)]
   \<and> path_weight fraction_graph (\<lambda>x. x) [0, 2] = Some (3 / 2)
   \<and> path_weight fraction_graph (\<lambda>x. x) [0, 1, 2] = Some (13 / 8)"
  by code_simp

text \<open>
  C2. The queue is to hand out an entry of least distance. After the first iteration of
  the main loop on \<open>detour_graph\<close> from vertex 1 the queue holds (distance 10, vertex 2)
  and (distance 1, vertex 3); its top is the entry of vertex 2, of distance 10, although
  an entry of distance 1 is queued: the queue is ordered by vertex number.
\<close>

theorem pq_top_not_min_distance:
  "loopBody detour_graph of_int (sp_init detour_graph 1) =
     Returns \<lparr>kv = [False, True, False, False, False],
              dv = [2147000000, 0, 10, 1, 2147000000],
              pv = [(1, 1), (2, 1), (3, 1), (4, - 1)],
              pq = [(10, 2), (1, 3)]\<rparr>
   \<and> pq_top [(10, 2), (1, 3)] = (10, 2)"
  by code_simp

text \<open>
  C3. \<open>findShortestPaths\<close> is to fail with \<open>VertexNotFound\<close> exactly when the start
  vertex is absent, and to succeed for every present start vertex. On the graph whose
  only vertex is 5 the call from 5 throws \<open>std::out_of_range\<close> (\<open>dv.at(5)\<close> on a
  vector of size 2); on the graph whose only vertex is 0 the call from the absent
  vertex 1 throws the same \<open>std::out_of_range\<close> (\<open>pv.at(1)\<close>), no
  \<open>DigraphException\<close>.
\<close>

theorem findShortestPaths_out_of_range:
  "findShortestPaths [(5, \<lparr>vinfo = (), edges = []\<rparr>)] 5 (w :: unit \<Rightarrow> rat) = Throws OutOfRange
   \<and> findShortestPaths [(0, \<lparr>vinfo = (), edges = []\<rparr>)] 1 w = Throws OutOfRange"
  by (simp add: findShortestPaths_def map_count_def vertexCount_def vector_at_def)

section \<open>The rounding of the double sum\<close>

text \<open>
  \<open>round_double\<close> keeps the sign, is within half a unit in the last place of its
  argument, and returns every integer below \<open>2 ^ 53\<close> in magnitude unchanged;
  \<open>binary_exponent\<close> is the binade of a positive rational.
\<close>

lemma round_even_nonneg: "0 \<le> q \<Longrightarrow> 0 \<le> round_even q"
  by (auto simp: round_even_def Let_def)

lemma round_even_nearest: "\<bar>of_int (round_even q) - q\<bar> \<le> 1 / 2"
proof -
  have f: "of_int \<lfloor>q\<rfloor> \<le> q" "q < of_int \<lfloor>q\<rfloor> + 1" by linarith+
  consider "q - of_int \<lfloor>q\<rfloor> < 1 / 2" | "1 / 2 < q - of_int \<lfloor>q\<rfloor>" | "q - of_int \<lfloor>q\<rfloor> = 1 / 2"
    by linarith
  then show ?thesis
  proof cases
    case 1
    then have "round_even q = \<lfloor>q\<rfloor>" by (simp add: round_even_def Let_def)
    with 1 f show ?thesis by simp
  next
    case 2
    then have "round_even q = \<lfloor>q\<rfloor> + 1" by (simp add: round_even_def Let_def)
    with 2 f show ?thesis by simp
  next
    case 3
    then have "round_even q = \<lfloor>q\<rfloor> \<or> round_even q = \<lfloor>q\<rfloor> + 1"
      by (simp add: round_even_def Let_def)
    with 3 f show ?thesis by auto
  qed
qed

lemma round_even_of_int: "round_even (of_int n) = n"
  by (simp add: round_even_def Let_def)

lemma round_double_nonneg: "0 \<le> x \<Longrightarrow> 0 \<le> round_double x"
  by (auto simp: round_double_def Let_def sgn_if intro!: mult_nonneg_nonneg round_even_nonneg)

lemma double_add_nonneg: "0 \<le> a \<Longrightarrow> 0 \<le> b \<Longrightarrow> 0 \<le> double_add a b"
  by (simp add: double_add_def round_double_nonneg)

lemma bitlen_powi:
  assumes "0 < n"
  shows "(2 :: rat) powi (bitlen n - 1) \<le> of_int n" and "of_int n < (2 :: rat) powi bitlen n"
proof -
  from assms have b: "1 \<le> bitlen n" by (auto simp: bitlen_alt_def)
  from bitlen_bounds[OF assms] have l: "2 ^ nat (bitlen n - 1) \<le> n" and u: "n < 2 ^ nat (bitlen n)"
    by simp_all
  from l have "(of_int (2 ^ nat (bitlen n - 1)) :: rat) \<le> of_int n"
    by (simp only: of_int_le_iff)
  with b show "(2 :: rat) powi (bitlen n - 1) \<le> of_int n"
    by (simp add: power_int_def)
  from u have "(of_int n :: rat) < of_int (2 ^ nat (bitlen n))"
    by (simp only: of_int_less_iff)
  with b show "of_int n < (2 :: rat) powi bitlen n"
    by (simp add: power_int_def)
qed

lemma binary_exponent_bounds:
  assumes "0 < x"
  shows "2 powi binary_exponent x \<le> x \<and> x < 2 powi (binary_exponent x + 1)"
proof -
  obtain n d where q: "quotient_of x = (n, d)" by (cases "quotient_of x")
  then have d: "0 < d" and x: "x = of_int n / of_int d"
    by (simp_all add: quotient_of_denom_pos quotient_of_div)
  with assms have n: "0 < n" by (simp add: zero_less_divide_iff)
  let ?k = "bitlen n - bitlen d"
  note bn = bitlen_powi[OF n] and bd = bitlen_powi[OF d]
  have dpos: "(0 :: rat) < of_int d" using d by simp
  have lo: "2 powi (?k - 1) \<le> x"
  proof -
    have "(2 :: rat) powi (?k - 1) * of_int d \<le> 2 powi (?k - 1) * 2 powi bitlen d"
      using bd(2) by (intro mult_left_mono) simp_all
    also have "\<dots> = 2 powi (bitlen n - 1)"
      by (simp flip: power_int_add)
    also have "\<dots> \<le> of_int n" by (rule bn(1))
    finally show ?thesis using dpos by (simp add: x pos_le_divide_eq)
  qed
  have hi: "x < 2 powi (?k + 1)"
  proof -
    have "of_int n < (2 :: rat) powi bitlen n" by (rule bn(2))
    also have "\<dots> = 2 powi (?k + 1) * 2 powi (bitlen d - 1)"
      by (simp flip: power_int_add)
    also have "\<dots> \<le> 2 powi (?k + 1) * of_int d"
      using bd(1) by (intro mult_left_mono) simp_all
    finally show ?thesis using dpos by (simp add: x pos_divide_less_eq)
  qed
  show ?thesis
  proof (cases "2 powi ?k \<le> x")
    case True
    with hi show ?thesis by (simp add: binary_exponent_def q)
  next
    case False
    with lo show ?thesis by (simp add: binary_exponent_def q)
  qed
qed

lemma round_double_error:
  assumes "x \<noteq> 0"
  shows "\<bar>round_double x - x\<bar> \<le> 2 powi (max (binary_exponent \<bar>x\<bar>) (- 1022) - 52) / 2"
proof -
  let ?u = "(2 :: rat) powi (max (binary_exponent \<bar>x\<bar>) (- 1022) - 52)"
  have u: "0 < ?u" by simp
  have "round_double x - x = sgn x * ((of_int (round_even (\<bar>x\<bar> / ?u)) - \<bar>x\<bar> / ?u) * ?u)"
    using assms u by (simp add: round_double_def Let_def algebra_simps sgn_if)
  then have "\<bar>round_double x - x\<bar> = \<bar>of_int (round_even (\<bar>x\<bar> / ?u)) - \<bar>x\<bar> / ?u\<bar> * ?u"
    using assms u by (simp add: abs_mult abs_sgn_eq)
  also have "\<dots> \<le> 1 / 2 * ?u"
    using round_even_nearest u by (intro mult_right_mono) simp_all
  finally show ?thesis by simp
qed

lemma round_double_of_int:
  assumes "\<bar>n\<bar> < 2 ^ 53"
  shows "round_double (of_int n) = of_int n"
proof (cases "n = 0")
  case True
  then show ?thesis by (simp add: round_double_def)
next
  case False
  let ?x = "of_int n :: rat"
  let ?e = "max (binary_exponent \<bar>?x\<bar>) (- 1022)"
  from False have pos: "0 < \<bar>?x\<bar>" by simp
  from binary_exponent_bounds[OF pos] have "2 powi binary_exponent \<bar>?x\<bar> \<le> \<bar>?x\<bar>" by simp
  also have "\<bar>?x\<bar> < 2 powi 53"
  proof -
    from assms have "(of_int \<bar>n\<bar> :: rat) < of_int (2 ^ 53)" by (simp only: of_int_less_iff)
    then show ?thesis by simp
  qed
  finally have less: "(2 :: rat) powi binary_exponent \<bar>?x\<bar> < 2 powi 53" .
  have "binary_exponent \<bar>?x\<bar> \<le> 52"
  proof (rule ccontr)
    assume "\<not> binary_exponent \<bar>?x\<bar> \<le> 52"
    then have "53 \<le> binary_exponent \<bar>?x\<bar>" by simp
    from power_int_increasing[OF this, of "2 :: rat"] less show False by simp
  qed
  then have e: "?e \<le> 52" by simp
  define m where "m = nat (52 - ?e)"
  have meq: "?e - 52 = - int m" using e by (simp add: m_def)
  have u: "(2 :: rat) powi (?e - 52) = 1 / 2 ^ m"
    unfolding meq by (simp add: power_int_minus_divide)
  have "\<bar>?x\<bar> / (2 powi (?e - 52)) = of_int (\<bar>n\<bar> * 2 ^ m)"
    unfolding u by simp
  then have "round_even (\<bar>?x\<bar> / (2 powi (?e - 52))) = \<bar>n\<bar> * 2 ^ m"
    by (simp only: round_even_of_int)
  then have "round_double ?x = sgn ?x * of_int (\<bar>n\<bar> * 2 ^ m) * (1 / 2 ^ m)"
    using False by (simp add: round_double_def Let_def u)
  also have "\<dots> = ?x"
    by (simp add: sgn_if)
  finally show ?thesis .
qed

text \<open>
  A tie goes to the even significand, upward and downward; a sum of small integers is
  exact.
\<close>

lemma double_add_examples:
  "double_add 1 (1 - 1 / 2 ^ 53) = 2
   \<and> double_add 1 (1 / 2 ^ 53) = 1
   \<and> double_add 1 (3 / 2 ^ 53) = 1 + 1 / 2 ^ 51
   \<and> double_add 5 (- (3 / 4)) = 17 / 4
   \<and> double_add 10 1 = 11"
  by code_simp

text \<open>
  On \<open>rounding_graph\<close> from vertex 0 the edge 1\<rightarrow>2 does not relax vertex 2: the
  rounded sum \<open>1 + (1 - 2 powi (- 53))\<close> is 2, not less than the distance 2 stored for
  vertex 2, whose predecessor stays 0.
\<close>

lemma findShortestPaths_rounds:
  "findShortestPaths rounding_graph 0 (\<lambda>x. x) = Returns [(0, 0), (1, 0), (2, 0)]"
  by code_simp

section \<open>Shortest paths: the returned map\<close>

lemma sp_reachD:
  assumes "sp_reach g start s"
  shows "map fst (pv s) = map fst g"
    and "\<And>e. e \<in> set (pv s) \<Longrightarrow> snd e \<noteq> - 1 \<Longrightarrow> reachable g start (fst e)"
    and "\<And>e. e \<in> set (pq s) \<Longrightarrow> reachable g start (snd e)"
  using assms unfolding sp_reach_def by blast+

lemma sp_distD:
  assumes "sp_dist start s"
  shows "\<And>e. e \<in> set (pv s) \<Longrightarrow> fst e = start \<Longrightarrow> snd e = start"
    and "\<And>x. x \<in> set (dv s) \<Longrightarrow> 0 \<le> x"
    and "0 \<le> start" and "nat start < length (dv s)" and "dv s ! nat start = 0"
  using assms unfolding sp_dist_def by blast+

lemma double_to_int_nonneg: "0 \<le> x \<Longrightarrow> 0 \<le> double_to_int x"
  by (simp add: double_to_int_def)

lemma pv_set_keys: "map fst (pv_set m k v) = map fst m"
  by (induction m) (auto simp: pv_set_def)

lemma pv_set_mem:
  "e \<in> set (pv_set m k v) \<Longrightarrow> e \<in> set m \<and> fst e \<noteq> k \<or> fst e = k \<and> snd e = v"
  by (auto simp: pv_set_def split: if_splits)

lemma reachable_step:
  "reachable g u a \<Longrightarrow> (a, b) \<in> edge_rel g \<Longrightarrow> reachable g u b"
  by (simp add: reachable_def)

lemma relax_Cons_Returns:
  assumes "relax w vertex (j # js) s = Returns s'"
  shows "relax w vertex js s = Returns s'
       \<or> (\<exists>dto dfrom t.
             vector_at (dv s) (toVertex j) = Returns dto
           \<and> vector_at (dv s) vertex = Returns dfrom
           \<and> of_int dto > double_add (of_int dfrom) (w (einfo j))
           \<and> t = double_to_int (double_add (of_int dfrom) (w (einfo j)))
           \<and> relax w vertex js
                (s\<lparr>dv := (dv s)[nat (toVertex j) := t],
                   pv := pv_set (pv s) (toVertex j) vertex,
                   pq := pq s @ [(t, toVertex j)]\<rparr>) = Returns s')"
proof -
  from assms obtain dto dfrom where dto: "vector_at (dv s) (toVertex j) = Returns dto"
    and dfrom: "vector_at (dv s) vertex = Returns dfrom"
    by (auto split: outcome.splits)
  show ?thesis
  proof (cases "rat_of_int dto > double_add (of_int dfrom) (w (einfo j))")
    case False
    with assms dto dfrom show ?thesis by simp
  next
    case True
    with assms dto dfrom show ?thesis
      by (simp add: Let_def split: if_splits)
  qed
qed

text \<open>The part of the invariant that holds for every weight function.\<close>

lemma relax_reach:
  assumes "sp_reach g start s" and "reachable g start vertex"
    and "\<forall>j \<in> set js. (vertex, toVertex j) \<in> edge_rel g"
    and "relax w vertex js s = Returns s'"
  shows "sp_reach g start s'"
  using assms
proof (induction js arbitrary: s)
  case Nil
  then show ?case by simp
next
  case (Cons j js)
  from Cons.prems(3) have js: "\<forall>j \<in> set js. (vertex, toVertex j) \<in> edge_rel g"
    and e: "(vertex, toVertex j) \<in> edge_rel g"
    by simp_all
  from relax_Cons_Returns[OF Cons.prems(4)] show ?case
  proof (elim disjE exE conjE)
    assume "relax w vertex js s = Returns s'"
    from Cons.IH[OF Cons.prems(1,2) js this] show ?thesis .
  next
    fix dto dfrom t
    let ?s = "s\<lparr>dv := (dv s)[nat (toVertex j) := t],
                pv := pv_set (pv s) (toVertex j) vertex,
                pq := pq s @ [(t, toVertex j)]\<rparr>"
    assume r: "relax w vertex js ?s = Returns s'"
    note inv = sp_reachD[OF Cons.prems(1)]
    from reachable_step[OF Cons.prems(2) e] have rt: "reachable g start (toVertex j)" .
    have sel: "pv ?s = pv_set (pv s) (toVertex j) vertex" "pq ?s = pq s @ [(t, toVertex j)]"
      by simp_all
    have "sp_reach g start ?s"
      unfolding sp_reach_def sel
    proof (intro conjI ballI impI)
      show "map fst (pv_set (pv s) (toVertex j) vertex) = map fst g"
        using inv(1) by (simp add: pv_set_keys)
    next
      fix e assume "e \<in> set (pv_set (pv s) (toVertex j) vertex)" "snd e \<noteq> - 1"
      with pv_set_mem[OF this(1)] inv(2)[of e] rt show "reachable g start (fst e)" by auto
    next
      fix e assume "e \<in> set (pq s @ [(t, toVertex j)])"
      with inv(3)[of e] rt show "reachable g start (snd e)" by auto
    qed
    from Cons.IH[OF this Cons.prems(2) js r] show ?thesis .
  qed
qed

lemma relax_vertex_reach:
  assumes "sp_reach g start s" and "reachable g start vertex"
    and "set is \<subseteq> set g"
    and "relax_vertex w vertex is s = Returns s'"
  shows "sp_reach g start s'"
  using assms
proof (induction "is" arbitrary: s)
  case Nil
  then show ?case by simp
next
  case (Cons i "is")
  show ?case
  proof (cases "fst i = vertex")
    case False
    with Cons show ?thesis by simp
  next
    case True
    with Cons.prems(4) obtain s1 where s1: "relax w vertex (edges (snd i)) s = Returns s1"
      and r: "relax_vertex w vertex is s1 = Returns s'"
      by (auto split: outcome.splits)
    from Cons.prems(3) have ig: "i \<in> set g" by simp
    with True have "\<forall>j \<in> set (edges (snd i)). (vertex, toVertex j) \<in> edge_rel g"
      by (auto simp: edge_rel_def)
    from relax_reach[OF Cons.prems(1,2) this s1] have "sp_reach g start s1" .
    from Cons.IH[OF this Cons.prems(2) _ r] Cons.prems(3) show ?thesis by simp
  qed
qed

lemma sp_reach_shrink:
  assumes "sp_reach g start s" and "pv s' = pv s" and "set (pq s') \<subseteq> set (pq s)"
  shows "sp_reach g start s'"
proof -
  note inv = sp_reachD[OF assms(1)]
  show ?thesis
    unfolding sp_reach_def assms(2)
  proof (intro conjI ballI impI)
    fix e assume "e \<in> set (pq s')"
    with assms(3) have "e \<in> set (pq s)" by blast
    then show "reachable g start (snd e)" by (rule inv(3))
  qed (use inv in blast)+
qed

lemma loopBody_Returns:
  assumes "loopBody g w s = Returns s'"
  shows "s' = s\<lparr>pq := pq_pop (pq s)\<rparr>
       \<or> relax_vertex w (snd (pq_top (pq s))) g
            (s\<lparr>pq := pq_pop (pq s), kv := (kv s)[nat (snd (pq_top (pq s))) := True]\<rparr>)
          = Returns s'"
proof (cases "vector_at (kv s) (snd (pq_top (pq s)))")
  case (Returns known)
  with assms show ?thesis
    by (cases known) (simp_all add: loopBody_def Let_def)
next
  case (Throws e)
  with assms show ?thesis by (simp add: loopBody_def Let_def)
next
  case Undefined
  with assms show ?thesis by (simp add: loopBody_def Let_def)
qed

lemma loopBody_reach:
  assumes "sp_reach g start s" and "pq s \<noteq> []"
    and "loopBody g w s = Returns s'"
  shows "sp_reach g start s'"
proof -
  let ?vertex = "snd (pq_top (pq s))"
  let ?s2 = "s\<lparr>pq := pq_pop (pq s), kv := (kv s)[nat ?vertex := True]\<rparr>"
  note inv = sp_reachD[OF assms(1)]
  from pq_top_in[OF assms(2)] have rv: "reachable g start ?vertex"
    by (rule inv(3))
  have sub: "set (pq_pop (pq s)) \<subseteq> set (pq s)"
    by (simp add: pq_pop_def set_remove1_subset)
  have i1: "sp_reach g start (s\<lparr>pq := pq_pop (pq s)\<rparr>)"
    using assms(1) by (rule sp_reach_shrink) (simp_all add: sub)
  have i2: "sp_reach g start ?s2"
    using assms(1) by (rule sp_reach_shrink) (simp_all add: sub)
  from loopBody_Returns[OF assms(3)] show ?thesis
  proof
    assume "s' = s\<lparr>pq := pq_pop (pq s)\<rparr>"
    with i1 show ?thesis by simp
  next
    assume "relax_vertex w ?vertex g ?s2 = Returns s'"
    from relax_vertex_reach[OF i2 rv subset_refl this] show ?thesis .
  qed
qed

lemma mainLoop_reach:
  "sp_reach g start s \<Longrightarrow> mainLoop g w s = Returns s' \<Longrightarrow> sp_reach g start s'"
proof (induction g w s rule: mainLoop.induct)
  case (1 g w s)
  show ?case
  proof (cases "pq s = []")
    case True
    with "1.prems" show ?thesis by (simp add: mainLoop.simps[of g w s])
  next
    case False
    with "1.prems"(2) obtain s1 where b: "loopBody g w s = Returns s1"
      and m: "mainLoop g w s1 = Returns s'"
      by (simp add: mainLoop.simps[of g w s] split: outcome.splits)
    from loopBody_reach[OF "1.prems"(1) False b] have "sp_reach g start s1" .
    from "1.IH"[OF False b this m] show ?thesis .
  qed
qed

lemma sp_init_reach: "sp_reach g start (sp_init g start)"
  unfolding sp_reach_def
proof (intro conjI ballI impI)
  show "map fst (pv (sp_init g start)) = map fst g"
    by (simp add: sp_init_def pv_set_keys comp_def)
next
  fix e assume "e \<in> set (pv (sp_init g start))" "snd e \<noteq> - 1"
  then have "e \<in> set (pv_set (map (\<lambda>i. (fst i, - 1)) g) start start)"
    by (simp add: sp_init_def)
  from pv_set_mem[OF this] \<open>snd e \<noteq> - 1\<close> have "fst e = start" by auto
  then show "reachable g start (fst e)" by (simp add: reachable_def)
next
  fix e assume "e \<in> set (pq (sp_init g start))"
  then show "reachable g start (snd e)" by (simp add: sp_init_def reachable_def)
qed

text \<open>The part of the invariant that needs non-negative weights.\<close>

lemma relax_dist:
  assumes "sp_dist start s"
    and "\<forall>j \<in> set js. 0 \<le> w (einfo j)"
    and "relax w vertex js s = Returns s'"
  shows "sp_dist start s'"
  using assms
proof (induction js arbitrary: s)
  case Nil
  then show ?case by simp
next
  case (Cons j js)
  from Cons.prems(2) have js: "\<forall>j \<in> set js. 0 \<le> w (einfo j)" and wj: "0 \<le> w (einfo j)"
    by simp_all
  from relax_Cons_Returns[OF Cons.prems(3)] show ?case
  proof (elim disjE exE conjE)
    assume "relax w vertex js s = Returns s'"
    from Cons.IH[OF Cons.prems(1) js this] show ?thesis .
  next
    fix dto dfrom t
    let ?s = "s\<lparr>dv := (dv s)[nat (toVertex j) := t],
                pv := pv_set (pv s) (toVertex j) vertex,
                pq := pq s @ [(t, toVertex j)]\<rparr>"
    assume dto: "vector_at (dv s) (toVertex j) = Returns dto"
      and dfrom: "vector_at (dv s) vertex = Returns dfrom"
      and less: "double_add (of_int dfrom) (w (einfo j)) < rat_of_int dto"
      and t: "t = double_to_int (double_add (of_int dfrom) (w (einfo j)))"
      and r: "relax w vertex js ?s = Returns s'"
    from dto have tor: "0 \<le> toVertex j" "nat (toVertex j) < length (dv s)"
      and dtoeq: "dto = dv s ! nat (toVertex j)"
      by (auto simp: vector_at_def split: if_splits)
    from dfrom have fr: "nat vertex < length (dv s)" and dfromeq: "dfrom = dv s ! nat vertex"
      by (auto simp: vector_at_def split: if_splits)
    note inv = sp_distD[OF Cons.prems(1)]
    from inv(2) fr dfromeq have "0 \<le> dfrom" by simp
    with wj have sum0: "0 \<le> double_add (of_int dfrom) (w (einfo j))"
      by (intro double_add_nonneg) simp_all
    then have t0: "0 \<le> t" unfolding t by (rule double_to_int_nonneg)
    have ns: "toVertex j \<noteq> start"
    proof
      assume "toVertex j = start"
      with inv(5) dtoeq have "dto = 0" by simp
      with less sum0 show False by simp
    qed
    have sel: "pv ?s = pv_set (pv s) (toVertex j) vertex"
      "dv ?s = (dv s)[nat (toVertex j) := t]"
      by simp_all
    have "sp_dist start ?s"
      unfolding sp_dist_def sel
    proof (intro conjI ballI impI)
      fix e assume "e \<in> set (pv_set (pv s) (toVertex j) vertex)" "fst e = start"
      with pv_set_mem[OF this(1)] inv(1)[of e] ns show "snd e = start" by auto
    next
      fix x assume "x \<in> set ((dv s)[nat (toVertex j) := t])"
      with set_update_subset_insert[of "dv s" "nat (toVertex j)" t]
      have "x = t \<or> x \<in> set (dv s)" by blast
      with inv(2)[of x] t0 show "0 \<le> x" by blast
    next
      show "0 \<le> start" by (rule inv(3))
      show "nat start < length ((dv s)[nat (toVertex j) := t])" using inv(4) by simp
      have "nat (toVertex j) \<noteq> nat start" using ns tor(1) inv(3) by linarith
      then show "(dv s)[nat (toVertex j) := t] ! nat start = 0"
        using inv(5) by simp
    qed
    from Cons.IH[OF this js r] show ?thesis .
  qed
qed

lemma relax_vertex_dist:
  assumes "sp_dist start s"
    and "set is \<subseteq> set g" and "nonneg_weights g w"
    and "relax_vertex w vertex is s = Returns s'"
  shows "sp_dist start s'"
  using assms
proof (induction "is" arbitrary: s)
  case Nil
  then show ?case by simp
next
  case (Cons i "is")
  show ?case
  proof (cases "fst i = vertex")
    case False
    with Cons show ?thesis by simp
  next
    case True
    with Cons.prems(4) obtain s1 where s1: "relax w vertex (edges (snd i)) s = Returns s1"
      and r: "relax_vertex w vertex is s1 = Returns s'"
      by (auto split: outcome.splits)
    from Cons.prems(2) have ig: "i \<in> set g" by simp
    with Cons.prems(3) have "\<forall>j \<in> set (edges (snd i)). 0 \<le> w (einfo j)"
      by (auto simp: nonneg_weights_def list_all_iff)
    from relax_dist[OF Cons.prems(1) this s1] have "sp_dist start s1" .
    from Cons.IH[OF this _ Cons.prems(3) r] Cons.prems(2) show ?thesis by simp
  qed
qed

lemma loopBody_dist:
  assumes "sp_dist start s" and "nonneg_weights g w"
    and "loopBody g w s = Returns s'"
  shows "sp_dist start s'"
proof -
  let ?vertex = "snd (pq_top (pq s))"
  let ?s2 = "s\<lparr>pq := pq_pop (pq s), kv := (kv s)[nat ?vertex := True]\<rparr>"
  have i1: "sp_dist start (s\<lparr>pq := pq_pop (pq s)\<rparr>)"
    using assms(1) by (simp add: sp_dist_def)
  have i2: "sp_dist start ?s2"
    using assms(1) by (simp add: sp_dist_def)
  from loopBody_Returns[OF assms(3)] show ?thesis
  proof
    assume "s' = s\<lparr>pq := pq_pop (pq s)\<rparr>"
    with i1 show ?thesis by simp
  next
    assume "relax_vertex w ?vertex g ?s2 = Returns s'"
    from relax_vertex_dist[OF i2 subset_refl assms(2) this] show ?thesis .
  qed
qed

lemma mainLoop_dist:
  "sp_dist start s \<Longrightarrow> nonneg_weights g w \<Longrightarrow> mainLoop g w s = Returns s' \<Longrightarrow>
     sp_dist start s'"
proof (induction g w s rule: mainLoop.induct)
  case (1 g w s)
  show ?case
  proof (cases "pq s = []")
    case True
    with "1.prems" show ?thesis by (simp add: mainLoop.simps[of g w s])
  next
    case False
    with "1.prems"(3) obtain s1 where b: "loopBody g w s = Returns s1"
      and m: "mainLoop g w s1 = Returns s'"
      by (simp add: mainLoop.simps[of g w s] split: outcome.splits)
    from loopBody_dist[OF "1.prems"(1,2) b] have "sp_dist start s1" .
    from "1.IH"[OF False b this "1.prems"(2) m] show ?thesis .
  qed
qed

lemma sp_init_dist:
  assumes "0 \<le> start" and "start < vertexCount g + 1"
  shows "sp_dist start (sp_init g start)"
  unfolding sp_dist_def
proof (intro conjI ballI impI)
  fix e assume "e \<in> set (pv (sp_init g start))" "fst e = start"
  then have "e \<in> set (pv_set (map (\<lambda>i. (fst i, - 1)) g) start start)"
    by (simp add: sp_init_def)
  from pv_set_mem[OF this] \<open>fst e = start\<close> show "snd e = start" by auto
next
  fix x assume "x \<in> set (dv (sp_init g start))"
  with set_update_subset_insert[of "replicate (nat (vertexCount g + 1)) 2147000000" "nat start" 0]
  have "x = 0 \<or> x \<in> set (replicate (nat (vertexCount g + 1)) (2147000000 :: int))"
    by (auto simp: sp_init_def)
  then show "0 \<le> x" by auto
next
  show "0 \<le> start" by (rule assms(1))
  show "nat start < length (dv (sp_init g start))"
    using assms by (simp add: sp_init_def)
  then show "dv (sp_init g start) ! nat start = 0"
    by (simp add: sp_init_def)
qed

text \<open>
  Whenever \<open>findShortestPaths\<close> returns a map: for every weight function its keys are
  exactly the graph's vertex keys (in the same order) and every vertex not reachable
  from the start vertex is mapped to itself; for a weight function that is non-negative
  on the payloads of the graph's edges, the start vertex is mapped to itself.
\<close>

lemma findShortestPaths_returned_map:
  assumes "findShortestPaths g start w = Returns m"
  shows "map fst m = vertices g
       \<and> (\<forall>v \<in> set (vertices g). \<not> reachable g start v \<longrightarrow> map_of m v = Some v)
       \<and> (nonneg_weights g w \<longrightarrow> map_of m start = Some start)"
proof -
  from assms obtain s where present: "map_count g start \<noteq> 0"
    and range: "0 \<le> start" "start < vertexCount g + 1"
    and run: "mainLoop g w (sp_init g start) = Returns s"
    and m: "m = map (\<lambda>i. if snd i = - 1 then (fst i, fst i) else i) (pv s)"
    unfolding findShortestPaths_def
    by (simp add: map_count_def vector_at_def vertexCount_def comp_def
             split: if_splits outcome.splits)
  from mainLoop_reach[OF sp_init_reach run] have "sp_reach g start s" .
  note reach = sp_reachD[OF this]
  have keys: "map fst m = map fst g"
  proof -
    have "map fst m = map fst (pv s)" unfolding m by (induction "pv s") auto
    with reach(1) show ?thesis by simp
  qed
  have val: "map_of m k = Some k" if k: "k \<in> fst ` set g"
    and all: "\<forall>e \<in> set (pv s). fst e = k \<longrightarrow> snd e = k \<or> snd e = - 1" for k
  proof -
    from k keys have "k \<in> fst ` set m" by (metis set_map)
    then obtain x where x: "map_of m k = Some x"
      by (metis domD dom_map_of_conv_image_fst)
    then have "(k, x) \<in> set m" by (rule map_of_SomeD)
    then obtain e where "e \<in> set (pv s)" "(k, x) = (if snd e = - 1 then (fst e, fst e) else e)"
      unfolding m by auto
    with all have "x = k" by (cases e) (auto split: if_splits)
    with x show ?thesis by simp
  qed
  from present have sk: "start \<in> fst ` set g"
    by (simp add: map_count_0)
  have "map_of m v = Some v" if "v \<in> set (vertices g)" "\<not> reachable g start v" for v
  proof (rule val)
    show "v \<in> fst ` set g" using that(1) by (simp add: vertices_def)
    show "\<forall>e \<in> set (pv s). fst e = v \<longrightarrow> snd e = v \<or> snd e = - 1"
      using reach(2) that(2) by blast
  qed
  moreover have "map_of m start = Some start" if nn: "nonneg_weights g w"
  proof -
    from mainLoop_dist[OF sp_init_dist[OF range] nn run] have "sp_dist start s" .
    note dist = sp_distD[OF this]
    show ?thesis using dist(1) by (intro val sk) blast
  qed
  ultimately show ?thesis
    using keys by (simp add: vertices_def)
qed

lemma detour_reach_from_2:
  "reachable detour_graph 2 v \<Longrightarrow> v = 2 \<or> v = 4"
  unfolding reachable_def
proof (induction rule: rtrancl_induct)
  case base
  then show ?case by simp
next
  case (step y z)
  then show ?case
    by (auto simp: edge_rel_def detour_graph_def mk_vertex_def)
qed

text \<open>
  The lemma at work: on \<open>detour_graph\<close> from vertex 2 a map is returned; vertex 3 is
  not reachable from 2 and is mapped to itself, as is the start vertex.
\<close>

lemma findShortestPaths_returned_map_example:
  "nonneg_weights detour_graph of_int
   \<and> findShortestPaths detour_graph 2 of_int = Returns [(1, 1), (2, 2), (3, 3), (4, 2)]
   \<and> map fst [(1 :: int, 1 :: int), (2, 2), (3, 3), (4, 2)] = vertices detour_graph
   \<and> map_of [(1 :: int, 1 :: int), (2, 2), (3, 3), (4, 2)] 2 = Some 2
   \<and> \<not> reachable detour_graph 2 3
   \<and> map_of [(1 :: int, 1 :: int), (2, 2), (3, 3), (4, 2)] 3 = Some 3"
proof -
  have h1: "nonneg_weights detour_graph of_int"
    by code_simp
  have h2: "findShortestPaths detour_graph 2 of_int = Returns [(1, 1), (2, 2), (3, 3), (4, 2)]"
    by code_simp
  have h3: "\<not> reachable detour_graph 2 3"
    using detour_reach_from_2[of 3] by auto
  have h4: "3 \<in> set (vertices detour_graph)"
    by code_simp
  from findShortestPaths_returned_map[OF h2] h3 h4 h1 h2 show ?thesis
    by blast
qed

text \<open>
  Non-negativity of the weights is the caller's duty. Without it the start vertex can
  lose itself as predecessor: on \<open>negative_cycle\<close> from vertex 0 with the payloads
  (both \<open>- 5\<close>) as weights, the edge 1\<rightarrow>0 relaxes the start vertex and the returned
  map sends 0 to 1.
\<close>

lemma findShortestPaths_start_overwritten:
  "findShortestPaths negative_cycle 0 of_int = Returns [(0, 1), (1, 0)]"
  by code_simp

text \<open>
  C4. For every graph and every start vertex present in it, \<open>findShortestPaths\<close> is to
  return a map whose keys are the graph's vertex keys, with the start vertex and every
  unreachable vertex mapped to themselves. On \<open>gap_graph\<close> (vertices 0 and 7, the edge
  0\<rightarrow>7 of weight 1) from the present vertex 0 no map is returned: relaxing the edge
  reads \<open>dv.at(7)\<close> on a vector of size 3 and the call throws \<open>std::out_of_range\<close>.
\<close>

theorem findShortestPaths_no_map:
  "findShortestPaths gap_graph 0 of_int = Throws OutOfRange
   \<and> vertices gap_graph = [0, 7]
   \<and> map_count gap_graph 0 = 1
   \<and> nonneg_weights gap_graph of_int"
  by code_simp

section \<open>Strong connectivity: claims\<close>

lemma dfs_distinct_subset:
  "(distinct tracker \<longrightarrow> distinct (depthFirst conv eqv g vertex tracker))
   \<and> set (depthFirst conv eqv g vertex tracker) \<subseteq> set tracker \<union> fst ` set g"
  "(distinct tracker \<longrightarrow> distinct (depthFirst_entries conv eqv g vertex sc rest tracker))
   \<and> set (depthFirst_entries conv eqv g vertex sc rest tracker)
       \<subseteq> set tracker \<union> fst ` set g \<union> fst ` set rest"
  "(distinct tracker \<longrightarrow> distinct (depthFirst_edges conv eqv g ks tracker))
   \<and> set (depthFirst_edges conv eqv g ks tracker) \<subseteq> set tracker \<union> fst ` set g"
proof (induction conv eqv g vertex tracker and conv eqv g vertex sc rest tracker
         and conv eqv g ks tracker
       rule: depthFirst_depthFirst_entries_depthFirst_edges.induct)
  case (1 conv eqv g vertex tracker)
  then show ?case by auto
next
  case (2 conv eqv g vertex strong_connected tracker)
  then show ?case by simp
next
  case (3 conv eqv g vertex strong_connected i rest tracker)
  show ?case
  proof (cases "eqv (fst i) vertex")
    case False
    with 3 show ?thesis by auto
  next
    case True
    show ?thesis
    proof (cases "strong_connected \<or> list_ex (\<lambda>t. eqv t vertex) tracker")
      case sc: True
      with True 3(3) show ?thesis by auto
    next
      case False
      with True have new: "fst i \<notin> set tracker" by (auto simp: list_ex_iff)
      from 3(1)[OF True False] new
      have a: "distinct tracker \<longrightarrow>
                 distinct (depthFirst_edges conv eqv g (edges (snd i)) (tracker @ [fst i]))"
        and b: "set (depthFirst_edges conv eqv g (edges (snd i)) (tracker @ [fst i]))
                  \<subseteq> insert (fst i) (set tracker) \<union> fst ` set g"
        by auto
      from 3(2)[OF True False] a b True False show ?thesis by auto
    qed
  qed
next
  case (4 conv eqv g tracker)
  then show ?case by simp
next
  case (5 conv eqv g k ks tracker)
  then show ?case by auto
qed

text \<open>
  C8. The traversal terminates on every graph, cyclic or not: every argument of
  \<open>depthFirst\<close> lies in the domain of its recursion (the part of the call relation on
  which every chain of recursive calls is finite), for every instantiation of
  \<open>VertexInfo\<close>. A vertex recorded in the tracker is not expanded again: started with an
  empty tracker, the traversal records no vertex twice and records vertices of the graph
  only, so it expands at most \<open>vertexCount()\<close> vertices.
\<close>

theorem depthFirst_terminates:
  "depthFirst_depthFirst_entries_depthFirst_edges_dom (Inl (conv, eqv, g, vertex, tracker))
   \<and> distinct (depthFirst conv eqv g vertex [])
   \<and> set (depthFirst conv eqv g vertex []) \<subseteq> set (vertices g)"
proof -
  have "depthFirst_depthFirst_entries_depthFirst_edges_dom (Inl (conv, eqv, g, vertex, tracker))"
    using depthFirst_all_dom by (rule spec)
  with dfs_distinct_subset(1)[of "[]" conv eqv g vertex] show ?thesis
    by (simp add: vertices_def del: depthFirst.simps)
qed


subsection \<open>Where the conversion is exact\<close>

text \<open>
  With an exact conversion from \<open>int\<close> to \<open>VertexInfo\<close> the loop over the map finds the
  one entry of the vertex, and the traversal is a depth-first search.
\<close>

lemma entries_skip:
  "exact_conversion conv eqv \<Longrightarrow> v \<notin> fst ` set rest \<Longrightarrow>
     depthFirst_entries conv eqv g (conv v) sc rest T = T"
  by (induction rest arbitrary: sc) (auto simp: exact_conversion_def)

lemma entries_exact:
  assumes "exact_conversion conv eqv" and "distinct (map fst rest)"
  shows "depthFirst_entries conv eqv g (conv v) False rest T =
           (case map_of rest v of
              None \<Rightarrow> T
            | Some d \<Rightarrow> if v \<in> set T then T
                        else depthFirst_edges conv eqv g (edges d) (T @ [v]))"
  using assms(2)
proof (induction rest)
  case Nil
  then show ?case by simp
next
  case (Cons i rest)
  from assms(1) have ex: "\<And>k k'. eqv k (conv k') = (k = k')"
    by (simp add: exact_conversion_def)
  show ?case
  proof (cases "fst i = v")
    case False
    with Cons ex show ?thesis by (cases i) simp
  next
    case True
    with Cons.prems have nv: "v \<notin> fst ` set rest" by auto
    have le: "list_ex (\<lambda>t. eqv t (conv v)) T = (v \<in> set T)"
      by (auto simp: list_ex_iff ex)
    from True ex le entries_skip[OF assms(1) nv] show ?thesis
      by (cases i) simp
  qed
qed

lemma depthFirst_exact:
  assumes "exact_conversion conv eqv" and "distinct (map fst g)"
  shows "depthFirst conv eqv g (conv v) T =
           (case map_of g v of
              None \<Rightarrow> T
            | Some d \<Rightarrow> if v \<in> set T then T
                        else depthFirst_edges conv eqv g (edges d) (T @ [v]))"
  using entries_exact[OF assms] by simp


lemma dfs_ok_refl: "dfs_ok g S T T"
  by (simp add: dfs_ok_def)

lemma edge_rel_unique:
  assumes "distinct (map fst g)" and "i \<in> set g" and "(fst i, y) \<in> edge_rel g"
  shows "y \<in> toVertex ` set (edges (snd i))"
proof -
  from assms(3) obtain i' where i': "i' \<in> set g" "fst i' = fst i"
    and y: "y \<in> toVertex ` set (edges (snd i'))"
    by (auto simp: edge_rel_def)
  from assms(1,2) i' have "i' = i"
    by (metis eq_key_imp_eq_value prod.collapse)
  with y show ?thesis by simp
qed

lemma dfs_ok_vertex:
  assumes dist: "distinct (map fst g)" and inv: "invariants g"
    and i: "i \<in> set g" and new: "fst i \<notin> set T"
    and ok: "dfs_ok g (toVertex ` set (edges (snd i))) (T @ [fst i]) T'"
    and vis: "\<forall>k \<in> set (edges (snd i)). toVertex k \<in> fst ` set g \<longrightarrow> toVertex k \<in> set T'"
  shows "dfs_ok g {fst i} T T'" and "fst i \<in> set T'"
proof -
  from ok have sub: "set (T @ [fst i]) \<subseteq> set T'"
    and sound: "set T' \<subseteq> set (T @ [fst i])
                   \<union> {x. \<exists>s \<in> toVertex ` set (edges (snd i)). reachable g s x}"
    and closed: "\<forall>x \<in> set T' - set (T @ [fst i]). \<forall>y. (x, y) \<in> edge_rel g \<longrightarrow> y \<in> set T'"
    by (simp_all add: dfs_ok_def)
  from sub show v: "fst i \<in> set T'" by simp
  have step: "(fst i, toVertex k) \<in> edge_rel g" if "k \<in> set (edges (snd i))" for k
    using that i by (auto simp: edge_rel_def)
  have sound': "x \<in> set T \<union> {x. \<exists>s \<in> {fst i}. reachable g s x}" if "x \<in> set T'" for x
  proof -
    from sound that have "x \<in> set (T @ [fst i])
        \<or> x \<in> {x. \<exists>s \<in> toVertex ` set (edges (snd i)). reachable g s x}"
      by blast
    then show ?thesis
    proof
      assume "x \<in> set (T @ [fst i])"
      then have "x \<in> set T \<or> x = fst i" by auto
      moreover have "reachable g (fst i) (fst i)" by (simp add: reachable_def)
      ultimately show ?thesis by blast
    next
      assume "x \<in> {x. \<exists>s \<in> toVertex ` set (edges (snd i)). reachable g s x}"
      then obtain k where k: "k \<in> set (edges (snd i))" "reachable g (toVertex k) x"
        by blast
      from step[OF k(1)] k(2) have "reachable g (fst i) x"
        unfolding reachable_def by (rule converse_rtrancl_into_rtrancl)
      then show ?thesis by simp
    qed
  qed
  have cl: "y \<in> set T'" if "x \<in> set T' - set T" "(x, y) \<in> edge_rel g" for x y
  proof (cases "x = fst i")
    case True
    with that(2) have "y \<in> toVertex ` set (edges (snd i))"
      using edge_rel_unique[OF dist i, of y] by simp
    then obtain k where k: "k \<in> set (edges (snd i))" "y = toVertex k" by blast
    with inv i have "toVertex k \<in> fst ` set g" by (simp add: invariants_iff)
    with vis k show ?thesis by simp
  next
    case False
    with that(1) have "x \<in> set T' - set (T @ [fst i])" by simp
    with closed that(2) show ?thesis by blast
  qed
  show "dfs_ok g {fst i} T T'"
    unfolding dfs_ok_def
  proof (intro conjI)
    show "set T \<subseteq> set T'" using sub by simp
    show "set T' \<subseteq> set T \<union> {x. \<exists>s \<in> {fst i}. reachable g s x}"
      using sound' by blast
    show "\<forall>x \<in> set T' - set T. \<forall>y. (x, y) \<in> edge_rel g \<longrightarrow> y \<in> set T'"
      using cl by blast
  qed
qed

lemma dfs_ok_edges_step:
  assumes "dfs_ok g {toVertex k} T T1" and "dfs_ok g (toVertex ` set ks) T1 T'"
  shows "dfs_ok g (toVertex ` set (k # ks)) T T'"
proof -
  from assms(1) have a: "set T \<subseteq> set T1"
    "set T1 \<subseteq> set T \<union> {x. reachable g (toVertex k) x}"
    "\<And>x y. x \<in> set T1 - set T \<Longrightarrow> (x, y) \<in> edge_rel g \<Longrightarrow> y \<in> set T1"
    unfolding dfs_ok_def by blast+
  from assms(2) have b: "set T1 \<subseteq> set T'"
    "set T' \<subseteq> set T1 \<union> {x. \<exists>s \<in> toVertex ` set ks. reachable g s x}"
    "\<And>x y. x \<in> set T' - set T1 \<Longrightarrow> (x, y) \<in> edge_rel g \<Longrightarrow> y \<in> set T'"
    unfolding dfs_ok_def by blast+
  show ?thesis
    unfolding dfs_ok_def
  proof (intro conjI ballI allI impI)
    show "set T \<subseteq> set T'" using a(1) b(1) by blast
    show "set T' \<subseteq> set T \<union> {x. \<exists>s \<in> toVertex ` set (k # ks). reachable g s x}"
    proof
      fix x assume "x \<in> set T'"
      with b(2) have "x \<in> set T1 \<or> (\<exists>s \<in> toVertex ` set ks. reachable g s x)" by blast
      with a(2) have "x \<in> set T \<or> reachable g (toVertex k) x
          \<or> (\<exists>s \<in> toVertex ` set ks. reachable g s x)" by blast
      then show "x \<in> set T \<union> {x. \<exists>s \<in> toVertex ` set (k # ks). reachable g s x}"
        by auto
    qed
  next
    fix x y assume x: "x \<in> set T' - set T" and e: "(x, y) \<in> edge_rel g"
    show "y \<in> set T'"
    proof (cases "x \<in> set T1")
      case True
      with x a(3)[of x y] e b(1) show ?thesis by blast
    next
      case False
      with x b(3)[of x y] e show ?thesis by blast
    qed
  qed
qed


lemma dfs_correct:
  "exact_conversion conv eqv \<Longrightarrow> distinct (map fst g) \<Longrightarrow> invariants g \<Longrightarrow>
     vertex = conv v \<Longrightarrow>
     dfs_ok g {v} T (depthFirst conv eqv g vertex T)
     \<and> (v \<in> fst ` set g \<longrightarrow> v \<in> set (depthFirst conv eqv g vertex T))"
  "exact_conversion conv eqv \<Longrightarrow> distinct (map fst g) \<Longrightarrow> invariants g \<Longrightarrow>
     vertex = conv v \<Longrightarrow> \<not> sc \<Longrightarrow> distinct (map fst rest) \<Longrightarrow> set rest \<subseteq> set g \<Longrightarrow>
     dfs_ok g {v} T (depthFirst_entries conv eqv g vertex sc rest T)
     \<and> (v \<in> fst ` set rest \<longrightarrow> v \<in> set (depthFirst_entries conv eqv g vertex sc rest T))"
  "exact_conversion conv eqv \<Longrightarrow> distinct (map fst g) \<Longrightarrow> invariants g \<Longrightarrow>
     dfs_ok g (toVertex ` set ks) T (depthFirst_edges conv eqv g ks T)
     \<and> (\<forall>k \<in> set ks. toVertex k \<in> fst ` set g
            \<longrightarrow> toVertex k \<in> set (depthFirst_edges conv eqv g ks T))"
proof (induction conv eqv g vertex T and conv eqv g vertex sc rest T and conv eqv g ks T
       arbitrary: v and v and
       rule: depthFirst_depthFirst_entries_depthFirst_edges.induct)
  case (1 conv eqv g vertex tracker)
  from "1.IH"[OF "1.prems"(1-4) _ "1.prems"(2) subset_refl] show ?case by simp
next
  case (2 conv eqv g vertex strong_connected tracker)
  then show ?case by (simp add: dfs_ok_refl)
next
  case (3 conv eqv g vertex strong_connected i rest tracker)
  note ex = "3.prems"(1)
  from ex have eq: "\<And>k k'. eqv k (conv k') = (k = k')"
    by (simp add: exact_conversion_def)
  from "3.prems" have vertex: "vertex = conv v" and sc: "\<not> strong_connected"
    and ig: "i \<in> set g" and rest: "distinct (map fst rest)" "set rest \<subseteq> set g"
    and nk: "fst i \<notin> fst ` set rest"
    by auto
  show ?case
  proof (cases "fst i = v")
    case False
    then have ne: "\<not> eqv (fst i) vertex" by (simp add: vertex eq)
    from "3.IH"(4)[OF ne "3.prems"(1-3) vertex sc rest] ne False show ?thesis
      by auto
  next
    case True
    then have e: "eqv (fst i) vertex" by (simp add: vertex eq)
    have le: "list_ex (\<lambda>t. eqv t vertex) tracker = (v \<in> set tracker)"
      by (auto simp: list_ex_iff vertex eq)
    from nk True have nv: "v \<notin> fst ` set rest" by simp
    note skip = entries_skip[OF ex nv, of g]
    show ?thesis
    proof (cases "v \<in> set tracker")
      case visited: True
      with e le sc skip show ?thesis
        by (simp add: vertex dfs_ok_refl)
    next
      case False
      with sc le have c: "\<not> (strong_connected \<or> list_ex (\<lambda>t. eqv t vertex) tracker)"
        by simp
      let ?T' = "depthFirst_edges conv eqv g (edges (snd i)) (tracker @ [fst i])"
      from "3.IH"(1)[OF e c "3.prems"(1-3)]
      have ok: "dfs_ok g (toVertex ` set (edges (snd i))) (tracker @ [fst i]) ?T'"
        and vis: "\<forall>k \<in> set (edges (snd i)). toVertex k \<in> fst ` set g \<longrightarrow> toVertex k \<in> set ?T'"
        by simp_all
      from False True have new: "fst i \<notin> set tracker" by simp
      from dfs_ok_vertex[OF "3.prems"(2,3) ig new ok vis]
      have "dfs_ok g {v} tracker ?T'" "v \<in> set ?T'"
        using True by simp_all
      moreover have "depthFirst_entries conv eqv g vertex strong_connected (i # rest) tracker = ?T'"
        using e c skip by (simp add: vertex)
      ultimately show ?thesis by simp
    qed
  qed
next
  case (4 conv eqv g tracker)
  then show ?case by (simp add: dfs_ok_refl)
next
  case (5 conv eqv g k ks tracker)
  let ?T1 = "depthFirst conv eqv g (conv (toVertex k)) tracker"
  let ?T' = "depthFirst_edges conv eqv g ks ?T1"
  from "5.IH"(1)[OF "5.prems" refl]
  have a: "dfs_ok g {toVertex k} tracker ?T1"
    and av: "toVertex k \<in> fst ` set g \<longrightarrow> toVertex k \<in> set ?T1"
    by simp_all
  from "5.IH"(2)[OF "5.prems"]
  have b: "dfs_ok g (toVertex ` set ks) ?T1 ?T'"
    and bv: "\<forall>k \<in> set ks. toVertex k \<in> fst ` set g \<longrightarrow> toVertex k \<in> set ?T'"
    by simp_all
  from b have "set ?T1 \<subseteq> set ?T'" by (simp add: dfs_ok_def)
  with av bv dfs_ok_edges_step[OF a b] show ?case
    by (simp del: depthFirst.simps) blast
qed


lemma depthFirst_reachable_set:
  assumes "exact_conversion conv eqv" and "distinct (map fst g)" and "invariants g"
    and "v \<in> fst ` set g"
  shows "set (depthFirst conv eqv g (conv v) []) = {x. reachable g v x}"
proof -
  let ?T' = "depthFirst conv eqv g (conv v) []"
  from dfs_correct(1)[OF assms(1-3) refl, of v "[]"] assms(4)
  have ok: "dfs_ok g {v} [] ?T'" and v: "v \<in> set ?T'"
    by simp_all
  from ok have sound: "set ?T' \<subseteq> {x. reachable g v x}"
    and closed: "\<And>x y. x \<in> set ?T' \<Longrightarrow> (x, y) \<in> edge_rel g \<Longrightarrow> y \<in> set ?T'"
    unfolding dfs_ok_def by auto
  have "x \<in> set ?T'" if "reachable g v x" for x
    using that unfolding reachable_def
  proof (induction rule: rtrancl_induct)
    case base
    show ?case by (rule v)
  next
    case (step y z)
    from closed[OF step.IH step.hyps(2)] show ?case .
  qed
  with sound show ?thesis by blast
qed

lemma isStronglyConnected_loop_iff:
  "isStronglyConnected_loop conv eqv g rest =
     (\<forall>i \<in> set rest. vertexCount g = int (length (depthFirst conv eqv g (conv (fst i)) [])))"
  by (induction rest) (auto simp del: depthFirst.simps)

lemma length_depthFirst_iff:
  assumes "exact_conversion conv eqv" and "distinct (map fst g)" and "invariants g"
    and "v \<in> fst ` set g"
  shows "vertexCount g = int (length (depthFirst conv eqv g (conv v) []))
           \<longleftrightarrow> (\<forall>x \<in> fst ` set g. reachable g v x)"
proof -
  let ?T' = "depthFirst conv eqv g (conv v) []"
  note r = depthFirst_reachable_set[OF assms]
  from dfs_distinct_subset(1)[of "[]" conv eqv g "conv v"]
  have d: "distinct ?T'" and sub: "set ?T' \<subseteq> fst ` set g"
    by simp_all
  have lg: "length g = card (fst ` set g)"
    using distinct_card[OF assms(2)] by simp
  have lt: "length ?T' = card (set ?T')"
    using distinct_card[OF d] by simp
  have "vertexCount g = int (length ?T') \<longleftrightarrow> card (set ?T') = card (fst ` set g)"
    unfolding vertexCount_def using lg lt by auto
  also have "\<dots> \<longleftrightarrow> set ?T' = fst ` set g"
    using card_subset_eq[OF _ sub] by auto
  also have "\<dots> \<longleftrightarrow> (\<forall>x \<in> fst ` set g. reachable g v x)"
    using sub unfolding r by blast
  finally show ?thesis .
qed

text \<open>
  For an instantiation with an exact conversion (such as \<open>VertexInfo = int\<close>),
  \<open>isStronglyConnected\<close> returns true exactly when every vertex of the graph reaches
  every vertex of the graph.
\<close>

theorem isStronglyConnected_exact:
  assumes "exact_conversion conv eqv" and "map_inv g" and "invariants g"
  shows "isStronglyConnected conv eqv g
           \<longleftrightarrow> (\<forall>u \<in> set (vertices g). \<forall>v \<in> set (vertices g). reachable g u v)"
proof -
  note d = map_inv_distinct[OF assms(2)]
  have "isStronglyConnected conv eqv g
          \<longleftrightarrow> (\<forall>i \<in> set g. vertexCount g = int (length (depthFirst conv eqv g (conv (fst i)) [])))"
    by (simp add: isStronglyConnected_def isStronglyConnected_loop_iff del: depthFirst.simps)
  also have "\<dots> \<longleftrightarrow> (\<forall>i \<in> set g. \<forall>x \<in> fst ` set g. reachable g (fst i) x)"
    using length_depthFirst_iff[OF assms(1) d assms(3)] by (simp del: depthFirst.simps)
  also have "\<dots> \<longleftrightarrow> (\<forall>u \<in> set (vertices g). \<forall>v \<in> set (vertices g). reachable g u v)"
    by (simp add: vertices_def)
  finally show ?thesis .
qed


lemma exact_conversion_int: "exact_conversion int_to_int int_eq_int"
  by (simp add: exact_conversion_def int_to_int_def int_eq_int_def)

lemma isStronglyConnected_three_cycle:
  "isStronglyConnected int_to_int int_eq_int three_cycle"
  by code_simp

lemma isStronglyConnected_empty: "isStronglyConnected conv eqv []"
  by (simp add: isStronglyConnected_def)

text \<open>
  C5. \<open>isStronglyConnected\<close> is to return true exactly when every vertex reaches every
  vertex, and in particular on a single-vertex graph without edges. For a
  \<open>Digraph<bool, ...>\<close> it does not: on \<open>lone_flagged\<close> (one vertex, 2) the call
  \<open>depthFirst(2, tracker)\<close> receives \<open>true\<close> in its parameter of type
  \<open>VertexInfo = bool\<close>, \<open>i->first == vertex\<close> holds for the key 1 only, the tracker
  stays empty and the result is false. On \<open>flagged_pair\<close> the vertices 0 and 2 reach
  each other, the traversal from 0 records \<open>[0]\<close> only, and the result is false.
\<close>

theorem isStronglyConnected_bool_payload:
  "isStronglyConnected int_to_bool int_eq_bool lone_flagged = False
   \<and> depthFirst int_to_bool int_eq_bool lone_flagged (int_to_bool 2) [] = []
   \<and> isStronglyConnected int_to_bool int_eq_bool flagged_pair = False
   \<and> depthFirst int_to_bool int_eq_bool flagged_pair (int_to_bool 0) [] = [0]
   \<and> edgesAll flagged_pair = [(0, 2), (2, 0)]"
  by code_simp

end
